theory Spec2Isabelle
  imports Main "HOL-Library.Char_ord" "HOL-Library.List_Lexorder" "HOL-Library.Multiset"
begin

section \<open>Data model\<close>

text \<open>
  Paths are the normalised absolute paths that \<^verbatim>\<open>path.resolve\<close> and \<^verbatim>\<open>path.join\<close>
  produce, kept as the list of their components; \<open>render\<close> gives the text. A JavaScript
  string is the list of its code units, taken below 256 so that a \<open>char\<close> holds one; strings
  compare code unit by code unit, as the default sort of the language does. A JavaScript
  number that holds a byte count is an \<open>int\<close>: below \<open>2 ^ 53\<close> its arithmetic is exact.
\<close>

type_synonym path = "string list"

text \<open>
  \<^verbatim>\<open>FileMetadata\<close> (types/file.ts). The time stamps and the extension play no part in
  scanning, grouping or hashing and are left out. \<open>hash = None\<close> is the unset optional field.
\<close>

record FileMetadata =
  path :: path
  name :: string
  size_f :: int
  isDirectory :: bool
  hash :: "string option"

datatype DuplicateType = NAME_BASED | CONTENT_BASED | FOLDER_BASED

datatype DuplicateAction = KEEP | DELETE | MOVE | RENAME

record DuplicateGroup =
  id_g :: string
  type_g :: DuplicateType
  files_g :: "FileMetadata list"
  totalSize :: int
  potentialSavings :: int
  actions :: "(path \<times> DuplicateAction) list"

section \<open>JavaScript Map and array helpers\<close>

text \<open>
  A JavaScript \<^verbatim>\<open>Map\<close> iterates in insertion order, so it is an association list with
  distinct keys: \<open>map_set\<close> replaces the value of a key that is present where it stands and
  appends a new key at the end.
\<close>

definition map_has :: "('k \<times> 'v) list \<Rightarrow> 'k \<Rightarrow> bool" where
  "map_has m k = (k \<in> set (map fst m))"

fun map_set :: "('k \<times> 'v) list \<Rightarrow> 'k \<Rightarrow> 'v \<Rightarrow> ('k \<times> 'v) list" where
  "map_set [] k v = [(k, v)]"
| "map_set ((k', v') # m) k v = (if k' = k then (k, v) # m else (k', v') # map_set m k v)"

text \<open>
  The body shared by the three grouping loops,
  \<^verbatim>\<open>if (!m.has(k)) m.set(k, []); m.get(k)!.push(x)\<close>:
  the array stored under \<open>k\<close> is extended in place.
\<close>

fun push_at :: "('k \<times> 'v list) list \<Rightarrow> 'k \<Rightarrow> 'v \<Rightarrow> ('k \<times> 'v list) list" where
  "push_at [] k x = []"
| "push_at ((k', vs) # m) k x = (if k' = k then (k', vs @ [x]) # m else (k', vs) # push_at m k x)"

definition map_push :: "('k \<times> 'v list) list \<Rightarrow> 'k \<Rightarrow> 'v \<Rightarrow> ('k \<times> 'v list) list" where
  "map_push m k x = push_at (if \<not> map_has m k then map_set m k [] else m) k x"

text \<open>
  \<^verbatim>\<open>Math.max(...xs)\<close>. With no argument JavaScript answers \<^verbatim>\<open>-Infinity\<close>; both call sites
  stand under the guard \<^verbatim>\<open>files.length > 1\<close>, so the list is never empty there.
\<close>

definition Math_max :: "int list \<Rightarrow> int" where
  "Math_max xs = Max (set xs)"

text \<open>\<^verbatim>\<open>if (file.hash)\<close>: an unset field and the empty string are both falsy.\<close>

definition truthy :: "string option \<Rightarrow> bool" where
  "truthy h = (case h of None \<Rightarrow> False | Some s \<Rightarrow> s \<noteq> [])"

section \<open>Duplicate detection by name and by content\<close>

text \<open>
  \<^verbatim>\<open>uuidv4()\<close> draws a fresh random identifier. The draws are a parameter: \<open>uuid n\<close> is
  the \<open>n\<close>-th identifier drawn, and every function that draws returns the next index.
\<close>

definition nameGroups :: "FileMetadata list \<Rightarrow> (string \<times> FileMetadata list) list" where
  "nameGroups fs = fold (\<lambda>file m. map_push m (name file) file) fs []"

definition nameGroup :: "string \<Rightarrow> FileMetadata list \<Rightarrow> DuplicateGroup" where
  "nameGroup i fs =
     (let tot = fold (\<lambda>file sum. sum + size_f file) fs 0;
          savings = tot - Math_max (map size_f fs)
      in \<lparr>id_g = i, type_g = NAME_BASED, files_g = fs, totalSize = tot,
          potentialSavings = savings, actions = []\<rparr>)"

definition findNameBasedDuplicates ::
  "(nat \<Rightarrow> string) \<Rightarrow> nat \<Rightarrow> FileMetadata list \<Rightarrow> DuplicateGroup list \<times> nat" where
  "findNameBasedDuplicates uuid n fs =
     fold (\<lambda>(nm, files) (groups, k).
             if length files > 1 then (groups @ [nameGroup (uuid k) files], Suc k)
             else (groups, k))
          (nameGroups fs) ([], n)"

definition hashGroups :: "FileMetadata list \<Rightarrow> (string \<times> FileMetadata list) list" where
  "hashGroups fs =
     fold (\<lambda>file m. if truthy (hash file) then map_push m (the (hash file)) file else m) fs []"

definition contentGroup :: "string \<Rightarrow> FileMetadata list \<Rightarrow> DuplicateGroup" where
  "contentGroup i fs =
     (let tot = fold (\<lambda>file sum. sum + size_f file) fs 0;
          savings = tot - size_f (fs ! 0)
      in \<lparr>id_g = i, type_g = CONTENT_BASED, files_g = fs, totalSize = tot,
          potentialSavings = savings, actions = []\<rparr>)"

definition findContentBasedDuplicates ::
  "(nat \<Rightarrow> string) \<Rightarrow> nat \<Rightarrow> FileMetadata list \<Rightarrow> DuplicateGroup list \<times> nat" where
  "findContentBasedDuplicates uuid n fs =
     fold (\<lambda>(h, files) (groups, k).
             if length files > 1 then (groups @ [contentGroup (uuid k) files], Suc k)
             else (groups, k))
          (hashGroups fs) ([], n)"


section \<open>The file system\<close>

text \<open>
  The file system is a tree. A regular file holds its bytes and a flag that says whether
  it can be read; a directory holds its entries in the order \<^verbatim>\<open>readdir\<close> lists them and a
  flag that says whether it can be listed; a symbolic link holds the tree it points to
  (\<open>None\<close> when it is broken); \<open>Other\<close> is a socket, pipe or device. A link cycle shows as
  the finite unfolding the operating system allows before it answers \<^verbatim>\<open>ELOOP\<close>.
\<close>

datatype node =
    File string bool
  | Dir "(string \<times> node) list" bool
  | Symlink "node option"
  | Other

datatype fs_error = ENOENT | ENOTDIR | EACCES | EISDIR

text \<open>\<^verbatim>\<open>stat\<close> follows symbolic links; a \<^verbatim>\<open>Dirent\<close> of \<^verbatim>\<open>readdir\<close> does not.\<close>

fun follow :: "node \<Rightarrow> node option" where
  "follow (Symlink None) = None"
| "follow (Symlink (Some t)) = follow t"
| "follow n = Some n"

fun dirent_isDirectory :: "node \<Rightarrow> bool" where
  "dirent_isDirectory (Dir es r) = True"
| "dirent_isDirectory n = False"

fun dirent_isFile :: "node \<Rightarrow> bool" where
  "dirent_isFile (File c r) = True"
| "dirent_isFile n = False"

fun dirent_isSymbolicLink :: "node \<Rightarrow> bool" where
  "dirent_isSymbolicLink (Symlink t) = True"
| "dirent_isSymbolicLink n = False"

fun resolve :: "node \<Rightarrow> path \<Rightarrow> node option" where
  "resolve nd [] = Some nd"
| "resolve nd (c # cs) =
     (case follow nd of
        Some (Dir es r) \<Rightarrow> (case map_of es c of None \<Rightarrow> None | Some ch \<Rightarrow> resolve ch cs)
      | _ \<Rightarrow> None)"

fun readdir_node :: "node \<Rightarrow> fs_error + (string \<times> node) list" where
  "readdir_node (Dir es r) = (if r then Inr es else Inl EACCES)"
| "readdir_node (Symlink None) = Inl ENOENT"
| "readdir_node (Symlink (Some t)) = readdir_node t"
| "readdir_node n = Inl ENOTDIR"

definition readdir :: "node \<Rightarrow> path \<Rightarrow> fs_error + (string \<times> node) list" where
  "readdir root p = (case resolve root p of None \<Rightarrow> Inl ENOENT | Some nd \<Rightarrow> readdir_node nd)"

text \<open>\<^verbatim>\<open>fs.stat\<close>: the byte size and \<^verbatim>\<open>isDirectory()\<close>.\<close>

fun stat_node :: "node \<Rightarrow> fs_error + (int \<times> bool)" where
  "stat_node (File c r) = Inr (int (length c), False)"
| "stat_node (Dir es r) = Inr (0, True)"
| "stat_node (Symlink None) = Inl ENOENT"
| "stat_node (Symlink (Some t)) = stat_node t"
| "stat_node Other = Inr (0, False)"

definition stat :: "node \<Rightarrow> path \<Rightarrow> fs_error + (int \<times> bool)" where
  "stat root p = (case resolve root p of None \<Rightarrow> Inl ENOENT | Some nd \<Rightarrow> stat_node nd)"

text \<open>Reading all bytes of a file (\<^verbatim>\<open>createReadStream\<close>, \<^verbatim>\<open>readFile\<close>).\<close>

fun read_node :: "node \<Rightarrow> fs_error + string" where
  "read_node (File c r) = (if r then Inr c else Inl EACCES)"
| "read_node (Dir es r) = Inl EISDIR"
| "read_node (Symlink None) = Inl ENOENT"
| "read_node (Symlink (Some t)) = read_node t"
| "read_node Other = Inl EACCES"

definition readFile :: "node \<Rightarrow> path \<Rightarrow> fs_error + string" where
  "readFile root p = (case resolve root p of None \<Rightarrow> Inl ENOENT | Some nd \<Rightarrow> read_node nd)"

section \<open>Paths\<close>

text \<open>\<^verbatim>\<open>path.join(directory, name)\<close> for a normalised directory and an entry name.\<close>

definition join :: "path \<Rightarrow> string \<Rightarrow> path" where
  "join directory nm = directory @ [nm]"

text \<open>
  \<^verbatim>\<open>path.relative(from, to)\<close> on normalised absolute paths: the common prefix goes, each
  component left of \<open>from\<close> becomes \<^verbatim>\<open>..\<close>.
\<close>

fun relative :: "path \<Rightarrow> path \<Rightarrow> path" where
  "relative [] ps = ps"
| "relative (b # bs) [] = replicate (length (b # bs)) ''..''"
| "relative (b # bs) (p # ps) =
     (if b = p then relative bs ps else replicate (length (b # bs)) ''..'' @ (p # ps))"

fun join_slash :: "string list \<Rightarrow> string" where
  "join_slash [] = []"
| "join_slash [c] = c"
| "join_slash (c # d # cs) = c @ ''/'' @ join_slash (d # cs)"

text \<open>The text of an absolute path, and \<^verbatim>\<open>path.basename\<close>.\<close>

definition render :: "path \<Rightarrow> string" where
  "render p = (if p = [] then ''/'' else concat (map (\<lambda>c. ''/'' @ c) p))"

definition basename :: "path \<Rightarrow> string" where
  "basename p = (if p = [] then [] else last p)"

section \<open>Content fingerprints\<close>

text \<open>
  \<^verbatim>\<open>calculateFileHash\<close> (file-utils.ts and folder-comparer.ts hold the same function):
  the hex SHA-256 of the bytes, or the stream's error. The digest is a parameter of the
  development: nothing proved here depends on more than the facts stated about it.
\<close>

definition calculateFileHash :: "(string \<Rightarrow> string) \<Rightarrow> node \<Rightarrow> path \<Rightarrow> fs_error + string" where
  "calculateFileHash digest root p =
     (case readFile root p of Inl e \<Rightarrow> Inl e | Inr bytes \<Rightarrow> Inr (digest bytes))"

section \<open>Folder structures\<close>

datatype FolderStructure =
  FolderStructure (path_s: path) (name_s: string) (files_s: "(string \<times> string) list")
    (subdirectories: "(string \<times> FolderStructure) list") (structureHash: string)

text \<open>
  \<^verbatim>\<open>Array.from(map.entries()).sort()\<close>: the default sort compares the elements as strings,
  and an entry \<^verbatim>\<open>[key, value]\<close> as a string is \<^verbatim>\<open>key + "," + String(value)\<close>. A folder
  structure as a string is \<^verbatim>\<open>[object Object]\<close>. The sort is stable.
\<close>

definition calculateStructureHash ::
  "(string \<Rightarrow> string) \<Rightarrow> (string \<times> string) list \<Rightarrow> (string \<times> FolderStructure) list \<Rightarrow> string" where
  "calculateStructureHash digest files subdirs =
     (let sortedFiles = sort_key (\<lambda>(p, fileHash). p @ '','' @ fileHash) files;
          sortedSubdirs = sort_key (\<lambda>(nm, structure). nm @ '',[object Object]'') subdirs
      in digest (concat (map (\<lambda>(p, fileHash). ''file:'' @ p @ '':'' @ fileHash) sortedFiles)
               @ concat (map (\<lambda>(nm, structure). ''dir:'' @ nm @ '':'' @ structureHash structure)
                           sortedSubdirs)))"

text \<open>
  \<^verbatim>\<open>buildFolderStructure(directoryPath, basePath)\<close>. \<open>buildFolderStructure_node\<close> is the call on the node that
  stands at \<open>directoryPath\<close>: the recursive call reads the child directory by its path,
  which in a tree is the child node. A directory that cannot be listed leaves both maps
  empty (the error is logged); a file that cannot be read gets the placeholder \<^verbatim>\<open>error\<close>.
\<close>

fun buildFolderStructure_node :: "(string \<Rightarrow> string) \<Rightarrow> path \<Rightarrow> path \<Rightarrow> node \<Rightarrow> FolderStructure"
  and buildFolderStructure_entries :: "(string \<Rightarrow> string) \<Rightarrow> path \<Rightarrow> path \<Rightarrow> (string \<times> node) list
      \<Rightarrow> (string \<times> string) list \<times> (string \<times> FolderStructure) list
      \<Rightarrow> (string \<times> string) list \<times> (string \<times> FolderStructure) list" where
  "buildFolderStructure_node digest directoryPath basePath (Dir es r) =
     (let (files, subdirs) = (if r then buildFolderStructure_entries digest directoryPath basePath es ([], [])
                              else ([], []))
      in FolderStructure directoryPath (basename directoryPath) files subdirs
           (calculateStructureHash digest files subdirs))"
| "buildFolderStructure_node digest directoryPath basePath (Symlink (Some t)) = buildFolderStructure_node digest directoryPath basePath t"
| "buildFolderStructure_node digest directoryPath basePath (Symlink None) =
     FolderStructure directoryPath (basename directoryPath) [] []
       (calculateStructureHash digest [] [])"
| "buildFolderStructure_node digest directoryPath basePath (File c r) =
     FolderStructure directoryPath (basename directoryPath) [] []
       (calculateStructureHash digest [] [])"
| "buildFolderStructure_node digest directoryPath basePath Other =
     FolderStructure directoryPath (basename directoryPath) [] []
       (calculateStructureHash digest [] [])"
| "buildFolderStructure_entries digest directoryPath basePath [] acc = acc"
| "buildFolderStructure_entries digest directoryPath basePath ((nm, entry) # es) (files, subdirs) =
     buildFolderStructure_entries digest directoryPath basePath es
       (let entryPath = join directoryPath nm;
            relativePath = join_slash (relative basePath entryPath)
        in case entry of
             Dir es' r' \<Rightarrow>
               (files, map_set subdirs nm (buildFolderStructure_node digest entryPath basePath (Dir es' r')))
           | File c r \<Rightarrow>
               (map_set files relativePath (if r then digest c else ''error''), subdirs)
           | Symlink t \<Rightarrow> (files, subdirs)
           | Other \<Rightarrow> (files, subdirs))"

definition buildFolderStructure ::
  "(string \<Rightarrow> string) \<Rightarrow> node \<Rightarrow> path \<Rightarrow> path \<Rightarrow> FolderStructure" where
  "buildFolderStructure digest root directoryPath basePath =
     (case resolve root directoryPath of
        Some nd \<Rightarrow> buildFolderStructure_node digest directoryPath basePath nd
      | None \<Rightarrow> FolderStructure directoryPath (basename directoryPath) [] []
                 (calculateStructureHash digest [] []))"

definition findDuplicateFolders :: "FolderStructure list \<Rightarrow> FolderStructure list list" where
  "findDuplicateFolders structures =
     filter (\<lambda>group. length group > 1)
       (map snd (fold (\<lambda>structure m. map_push m (structureHash structure) structure)
                   structures []))"

text \<open>\<^verbatim>\<open>getFolderSize\<close>: the bytes of the regular files below a directory.\<close>

fun getFolderSize_node :: "node \<Rightarrow> int"
  and getFolderSize_entries :: "(string \<times> node) list \<Rightarrow> int \<Rightarrow> int" where
  "getFolderSize_node (Dir es r) = (if r then getFolderSize_entries es 0 else 0)"
| "getFolderSize_node (Symlink (Some t)) = getFolderSize_node t"
| "getFolderSize_node (Symlink None) = 0"
| "getFolderSize_node (File c r) = 0"
| "getFolderSize_node Other = 0"
| "getFolderSize_entries [] tot = tot"
| "getFolderSize_entries ((nm, entry) # es) tot =
     getFolderSize_entries es
       (case entry of
          Dir es' r' \<Rightarrow> tot + getFolderSize_node (Dir es' r')
        | File c r \<Rightarrow> tot + int (length c)
        | Symlink t \<Rightarrow> tot
        | Other \<Rightarrow> tot)"

definition getFolderSize :: "node \<Rightarrow> path \<Rightarrow> int" where
  "getFolderSize root folderPath =
     (case resolve root folderPath of Some nd \<Rightarrow> getFolderSize_node nd | None \<Rightarrow> 0)"

section \<open>Duplicate detection by folder structure\<close>

definition folderGroup :: "string \<Rightarrow> FileMetadata list \<Rightarrow> int \<Rightarrow> DuplicateGroup" where
  "folderGroup i fs tot =
     \<lparr>id_g = i, type_g = FOLDER_BASED, files_g = fs, totalSize = tot,
      potentialSavings = tot - Math_max (map size_f fs), actions = []\<rparr>"

definition findFolderBasedDuplicates ::
  "(string \<Rightarrow> string) \<Rightarrow> node \<Rightarrow> (nat \<Rightarrow> string) \<Rightarrow> nat \<Rightarrow> FileMetadata list
     \<Rightarrow> DuplicateGroup list \<times> nat" where
  "findFolderBasedDuplicates digest root uuid n directories =
     (if length directories = 0 then ([], n)
      else
        let folderStructures =
              map (\<lambda>dir. buildFolderStructure digest root (path dir) (path dir)) directories;
            duplicateFolderGroups = findDuplicateFolders folderStructures
        in fold (\<lambda>folderGroup' (groups, k).
                   let (files, tot) =
                         fold (\<lambda>folder (files, tot).
                                 let sz = getFolderSize root (path_s folder)
                                 in (files @ [\<lparr>path = path_s folder, name = name_s folder,
                                               size_f = sz, isDirectory = True, hash = None\<rparr>],
                                     tot + sz))
                              folderGroup' ([], 0)
                   in if length files > 1
                      then (groups @ [folderGroup (uuid k) files tot], Suc k)
                      else (groups, k))
                duplicateFolderGroups ([], n))"

definition detectDuplicates ::
  "(string \<Rightarrow> string) \<Rightarrow> node \<Rightarrow> (nat \<Rightarrow> string) \<Rightarrow> nat \<Rightarrow> FileMetadata list
     \<Rightarrow> FileMetadata list \<Rightarrow> DuplicateGroup list" where
  "detectDuplicates digest root uuid n files directories =
     (let (nameBasedGroups, n1) = findNameBasedDuplicates uuid n files;
          (contentBasedGroups, n2) = findContentBasedDuplicates uuid n1 files;
          (folderBasedGroups, n3) = findFolderBasedDuplicates digest root uuid n2 directories
      in nameBasedGroups @ contentBasedGroups @ folderBasedGroups)"

section \<open>The undo system\<close>

text \<open>
  The undo system (utils/undo-system.ts) works on path texts. Its world is the set of
  regular files by path text with their bytes, the paths that cannot be written, and the
  list that the history file holds (the file is the JSON text of the operations; the model
  keeps the list). \<open>history_locked\<close> says that writing the history file fails.
\<close>

record UndoOperation =
  id_u :: string
  timestamp :: nat
  action :: DuplicateAction
  originalPath :: string
  backupPath :: "string option"
  newPath :: "string option"

record undo_state =
  operations :: "UndoOperation list"
  disk :: "string \<rightharpoonup> string"
  denied :: "string set"
  history :: "UndoOperation list"
  history_locked :: bool

text \<open>
  \<^verbatim>\<open>fs.copyFile\<close>, \<^verbatim>\<open>fs.rename\<close> and \<^verbatim>\<open>fs.unlink\<close>: each fails with \<^verbatim>\<open>ENOENT\<close> when the
  source is missing and with \<^verbatim>\<open>EACCES\<close> when the target cannot be written, and changes
  nothing then.
\<close>

definition copyFile :: "undo_state \<Rightarrow> string \<Rightarrow> string \<Rightarrow> fs_error + undo_state" where
  "copyFile st src dst =
     (case disk st src of
        None \<Rightarrow> Inl ENOENT
      | Some bytes \<Rightarrow>
          if dst \<in> denied st then Inl EACCES
          else Inr (st\<lparr>disk := (disk st)(dst \<mapsto> bytes)\<rparr>))"

definition rename :: "undo_state \<Rightarrow> string \<Rightarrow> string \<Rightarrow> fs_error + undo_state" where
  "rename st src dst =
     (case disk st src of
        None \<Rightarrow> Inl ENOENT
      | Some bytes \<Rightarrow>
          if dst \<in> denied st then Inl EACCES
          else Inr (st\<lparr>disk := ((disk st)(src := None))(dst \<mapsto> bytes)\<rparr>))"

definition unlink :: "undo_state \<Rightarrow> string \<Rightarrow> fs_error + undo_state" where
  "unlink st p =
     (case disk st p of
        None \<Rightarrow> Inl ENOENT
      | Some bytes \<Rightarrow>
          if p \<in> denied st then Inl EACCES
          else Inr (st\<lparr>disk := (disk st)(p := None)\<rparr>))"

text \<open>\<^verbatim>\<open>saveHistory\<close> catches and logs its own failure.\<close>

definition saveHistory :: "undo_state \<Rightarrow> undo_state" where
  "saveHistory st = (if history_locked st then st else st\<lparr>history := operations st\<rparr>)"

text \<open>\<^verbatim>\<open>path.basename\<close> and \<^verbatim>\<open>path.join\<close> on path texts.\<close>

definition basename_text :: "string \<Rightarrow> string" where
  "basename_text p =
     rev (takeWhile (\<lambda>c. c \<noteq> CHR ''/'') (dropWhile (\<lambda>c. c = CHR ''/'') (rev p)))"

definition join_text :: "string \<Rightarrow> string \<Rightarrow> string" where
  "join_text d nm = d @ ''/'' @ nm"

definition backupDirectory :: "string \<Rightarrow> string" where
  "backupDirectory homedir = join_text (join_text homedir ''.duplicates-finder'') ''backups''"

text \<open>
  \<^verbatim>\<open>createBackup\<close>. \<open>isoText\<close> is the text of \<^verbatim>\<open>new Date().toISOString()\<close> at the call.
\<close>

definition createBackup ::
  "string \<Rightarrow> string \<Rightarrow> undo_state \<Rightarrow> string \<Rightarrow> fs_error + (string \<times> undo_state)" where
  "createBackup homedir isoText st filePath =
     (let fileName = basename_text filePath;
          stamp = map (\<lambda>c. if c = CHR '':'' \<or> c = CHR ''.'' then CHR ''-'' else c) isoText;
          backupFileName = stamp @ ''_'' @ fileName;
          backupPath' = join_text (backupDirectory homedir) backupFileName
      in case copyFile st filePath backupPath' of
           Inl e \<Rightarrow> Inl e
         | Inr st' \<Rightarrow> Inr (backupPath', st'))"

text \<open>
  \<^verbatim>\<open>recordOperation\<close>. The argument is an operation whose id and time stamp are still to
  be set; \<open>new_id\<close> is the identifier that \<^verbatim>\<open>generateOperationId\<close> draws and \<open>now\<close> the
  clock. A failed backup copy rejects the call before anything is recorded.
\<close>

definition recordOperation ::
  "string \<Rightarrow> string \<Rightarrow> nat \<Rightarrow> string \<Rightarrow> undo_state \<Rightarrow> UndoOperation
     \<Rightarrow> fs_error + (string \<times> undo_state)" where
  "recordOperation homedir new_id now isoText st operation =
     (let undoOp = operation\<lparr>id_u := new_id, timestamp := now\<rparr>
      in if action operation = DELETE then
           (case createBackup homedir isoText st (originalPath operation) of
              Inl e \<Rightarrow> Inl e
            | Inr (b, st') \<Rightarrow>
                Inr (new_id, saveHistory
                  (st'\<lparr>operations := operations st' @ [undoOp\<lparr>backupPath := Some b\<rparr>]\<rparr>)))
         else Inr (new_id, saveHistory (st\<lparr>operations := operations st @ [undoOp]\<rparr>)))"

text \<open>\<^verbatim>\<open>Array.prototype.findIndex\<close>: \<open>None\<close> stands for -1.\<close>

fun findIndex :: "('a \<Rightarrow> bool) \<Rightarrow> 'a list \<Rightarrow> nat option" where
  "findIndex P [] = None"
| "findIndex P (x # xs) =
     (if P x then Some 0 else (case findIndex P xs of None \<Rightarrow> None | Some i \<Rightarrow> Some (Suc i)))"

text \<open>\<^verbatim>\<open>operations.splice(i, 1)\<close>.\<close>

definition splice1 :: "'a list \<Rightarrow> nat \<Rightarrow> 'a list" where
  "splice1 xs i = take i xs @ drop (Suc i) xs"

text \<open>
  \<^verbatim>\<open>undoOperation\<close> returns a Boolean and writes one line to the log; the outcome keeps
  both. \<open>returned\<close> is the Boolean.
\<close>

datatype undo_outcome = Undone | OperationNotFound | CannotUndo | UndoFailed fs_error

fun returned :: "undo_outcome \<Rightarrow> bool" where
  "returned Undone = True"
| "returned outcome = False"

text \<open>\<^verbatim>\<open>if (operation.backupPath)\<close>: an unset field and the empty text are falsy.\<close>

definition removeFromHistory :: "undo_state \<Rightarrow> nat \<Rightarrow> undo_state" where
  "removeFromHistory st i = saveHistory (st\<lparr>operations := splice1 (operations st) i\<rparr>)"

definition undoOperation :: "undo_state \<Rightarrow> string \<Rightarrow> undo_outcome \<times> undo_state" where
  "undoOperation st operationId =
     (case findIndex (\<lambda>op. id_u op = operationId) (operations st) of
        None \<Rightarrow> (OperationNotFound, st)
      | Some operationIndex \<Rightarrow>
          (let operation = operations st ! operationIndex in
           case action operation of
             DELETE \<Rightarrow>
               (if truthy (backupPath operation) then
                  (case copyFile st (the (backupPath operation)) (originalPath operation) of
                     Inl e \<Rightarrow> (UndoFailed e, st)
                   | Inr st' \<Rightarrow> (Undone, removeFromHistory st' operationIndex))
                else (Undone, removeFromHistory st operationIndex))
           | MOVE \<Rightarrow>
               (if truthy (newPath operation) then
                  (case rename st (the (newPath operation)) (originalPath operation) of
                     Inl e \<Rightarrow> (UndoFailed e, st)
                   | Inr st' \<Rightarrow> (Undone, removeFromHistory st' operationIndex))
                else (Undone, removeFromHistory st operationIndex))
           | RENAME \<Rightarrow>
               (if truthy (newPath operation) then
                  (case rename st (the (newPath operation)) (originalPath operation) of
                     Inl e \<Rightarrow> (UndoFailed e, st)
                   | Inr st' \<Rightarrow> (Undone, removeFromHistory st' operationIndex))
                else (Undone, removeFromHistory st operationIndex))
           | KEEP \<Rightarrow> (CannotUndo, st)))"

text \<open>
  \<^verbatim>\<open>clearHistory\<close>: the one place that deletes backup files. A backup that cannot be
  deleted is logged and skipped.
\<close>

definition clearHistory :: "undo_state \<Rightarrow> undo_state" where
  "clearHistory st =
     saveHistory
       ((fold (\<lambda>operation st'.
                 if truthy (backupPath operation) then
                   (case unlink st' (the (backupPath operation)) of
                      Inl e \<Rightarrow> st'
                    | Inr st'' \<Rightarrow> st'')
                 else st')
              (operations st) st)
        \<lparr>operations := []\<rparr>)"

section \<open>Strings\<close>

definition startsWith :: "string \<Rightarrow> string \<Rightarrow> bool" where
  "startsWith s p = (take (length p) s = p)"

definition endsWith :: "string \<Rightarrow> string \<Rightarrow> bool" where
  "endsWith s p = (length p \<le> length s \<and> drop (length s - length p) s = p)"

text \<open>\<^verbatim>\<open>s.replace(/c/g, t)\<close> for a pattern that matches single characters.\<close>

definition replace_chars :: "(char \<Rightarrow> bool) \<Rightarrow> (char \<Rightarrow> string) \<Rightarrow> string \<Rightarrow> string" where
  "replace_chars hit by s = concat (map (\<lambda>c. if hit c then by c else [c]) s)"

section \<open>Regular expressions\<close>

text \<open>
  The two pattern translators of the program build the source text of a regular expression
  and hand it to the \<^verbatim>\<open>RegExp\<close> constructor of the language, without flags. The
  constructor and \<^verbatim>\<open>RegExp.prototype.test\<close> are modelled after the language standard
  (the pattern grammar with its additions for web browsers, which every engine
  implements): alternatives, the quantifiers \<^verbatim>\<open>*\<close>, \<^verbatim>\<open>+\<close>, \<^verbatim>\<open>?\<close> and \<^verbatim>\<open>{n}\<close>, \<^verbatim>\<open>{n,}\<close>,
  \<^verbatim>\<open>{n,m}\<close>, greedy or lazy, the assertions \<^verbatim>\<open>^\<close>, \<^verbatim>\<open>$\<close>, \<^verbatim>\<open>\b\<close> and \<^verbatim>\<open>\B\<close>, capturing groups
  and \<^verbatim>\<open>(?:\<close> groups, back references, \<^verbatim>\<open>.\<close>, the class escapes, the character escapes and
  character classes with ranges. The one part left out is the group that starts with
  \<^verbatim>\<open>(?\<close> and is not \<^verbatim>\<open>(?:\<close> (look-ahead, look-behind, named groups): the constructor of the
  model answers \<open>Unmodelled\<close> for it. Neither translator can produce it: both replace
  every \<^verbatim>\<open>?\<close> of the pattern, and the one \<^verbatim>\<open>?\<close> that \<^verbatim>\<open>patternToRegex\<close> adds follows a
  closing parenthesis (lemmas \<open>glob_source_modelled\<close> and \<open>patternToRegex_modelled\<close>).

  An expression is kept as a tree. A character of the expression is a \<open>char\<close> when it
  stands in the source and a code unit (a number) when an escape names it; a class is a
  list of ranges of code units.
\<close>

datatype rx =
    Chr char
  | Dot
  | Cls bool "(nat \<times> nat) list"
  | Bol
  | Eol
  | Boundary bool
  | Eps
  | Seq rx rx
  | Alt rx rx
  | Rep nat "nat option" rx
  | Group nat rx
  | Backref nat

subsection \<open>Matching\<close>

text \<open>
  A state of the matcher is the character before the current index (none at index 0), the
  rest of the input from the index on, and the captures of the groups closed so far.
  \<open>run r st\<close> lists the states in which a match of \<open>r\<close> that starts in \<open>st\<close> can end;
  \<^verbatim>\<open>test\<close> only asks whether there is one, so neither the order of the list nor the
  difference between a greedy and a lazy quantifier matters.
\<close>

type_synonym rx_state = "char option \<times> string \<times> (nat \<times> string) list"

definition in_ranges :: "(nat \<times> nat) list \<Rightarrow> nat \<Rightarrow> bool" where
  "in_ranges rs n = list_ex (\<lambda>(lo, hi). lo \<le> n \<and> n \<le> hi) rs"

text \<open>The sets of \<^verbatim>\<open>\d\<close>, \<^verbatim>\<open>\w\<close> and \<^verbatim>\<open>\s\<close>, and the line terminators, which \<^verbatim>\<open>.\<close> excludes.\<close>

definition digit_set :: "(nat \<times> nat) list" where
  "digit_set = [(48, 57)]"

definition word_set :: "(nat \<times> nat) list" where
  "word_set = [(48, 57), (65, 90), (95, 95), (97, 122)]"

definition space_set :: "(nat \<times> nat) list" where
  "space_set = [(9, 13), (32, 32), (160, 160), (5760, 5760), (8192, 8202), (8232, 8233),
                (8239, 8239), (8287, 8287), (12288, 12288), (65279, 65279)]"

definition line_terminator :: "char \<Rightarrow> bool" where
  "line_terminator c = (c = CHR 0x0A \<or> c = CHR 0x0D)"

definition word_char :: "char \<Rightarrow> bool" where
  "word_char c = in_ranges word_set (of_char c)"

fun eat :: "(char \<Rightarrow> bool) \<Rightarrow> rx_state \<Rightarrow> rx_state list" where
  "eat ok (prev, [], caps) = []"
| "eat ok (prev, x # xs, caps) = (if ok x then [(Some x, xs, caps)] else [])"

fun at_boundary :: "rx_state \<Rightarrow> bool" where
  "at_boundary (prev, rest, caps) =
     ((case prev of None \<Rightarrow> False | Some a \<Rightarrow> word_char a)
      \<noteq> (case rest of [] \<Rightarrow> False | b # bs \<Rightarrow> word_char b))"

text \<open>
  A group that closes records the text between its start and its end. A back reference
  to a group without a capture matches the empty text.
\<close>

fun capture :: "nat \<Rightarrow> rx_state \<Rightarrow> rx_state \<Rightarrow> rx_state" where
  "capture k (prev, rest, caps) (prev', rest', caps') =
     (prev', rest', (k, take (length rest - length rest') rest) # caps')"

fun backref :: "nat \<Rightarrow> rx_state \<Rightarrow> rx_state list" where
  "backref k (prev, rest, caps) =
     (case map_of caps k of
        None \<Rightarrow> [(prev, rest, caps)]
      | Some t \<Rightarrow>
          if take (length t) rest = t
          then [(if t = [] then prev else Some (last t), drop (length t) rest, caps)]
          else [])"

fun clear :: "nat list \<Rightarrow> rx_state \<Rightarrow> rx_state" where
  "clear gs (prev, rest, caps) = (prev, rest, filter (\<lambda>(j, t). j \<notin> set gs) caps)"

primrec groups :: "rx \<Rightarrow> nat list" where
  "groups (Chr c) = []"
| "groups Dot = []"
| "groups (Cls negated rs) = []"
| "groups Bol = []"
| "groups Eol = []"
| "groups (Boundary negated) = []"
| "groups Eps = []"
| "groups (Seq a b) = groups a @ groups b"
| "groups (Alt a b) = groups a @ groups b"
| "groups (Rep lo hi a) = groups a"
| "groups (Group k a) = k # groups a"
| "groups (Backref k) = []"

text \<open>
  The repetition of the standard (\<^verbatim>\<open>RepeatMatcher\<close>): at most \<open>hi\<close> and at least \<open>lo\<close>
  rounds of \<open>m\<close>; every round starts with the captures of the groups inside cleared; once
  the lower bound is met, a round that leaves the index where it was is given up. A match
  never ends before it starts (lemma \<open>run_suffix\<close>), so that is the round whose rest is
  not shorter.
\<close>

function rep ::
  "(rx_state \<Rightarrow> rx_state list) \<Rightarrow> nat list \<Rightarrow> nat \<Rightarrow> nat option \<Rightarrow> rx_state \<Rightarrow> rx_state list" where
  "rep m gs lo hi x =
     (if hi = Some 0 then [x]
      else
        let again = concat (map (\<lambda>y. if lo = 0 \<and> length (fst (snd x)) \<le> length (fst (snd y))
                                      then []
                                      else rep m gs (lo - 1) (map_option (\<lambda>h. h - 1) hi) y)
                              (m (clear gs x)))
        in if lo = 0 then again @ [x] else again)"
  by pat_completeness auto
termination
  by (relation "measures [\<lambda>(m, gs, lo, hi, x). lo, \<lambda>(m, gs, lo, hi, x). length (fst (snd x))]")
    auto

declare rep.simps [simp del]

primrec run :: "rx \<Rightarrow> rx_state \<Rightarrow> rx_state list" where
  "run (Chr c) st = eat (\<lambda>x. x = c) st"
| "run Dot st = eat (\<lambda>x. \<not> line_terminator x) st"
| "run (Cls negated rs) st = eat (\<lambda>x. in_ranges rs (of_char x) \<noteq> negated) st"
| "run Bol st = (if fst st = None then [st] else [])"
| "run Eol st = (if fst (snd st) = [] then [st] else [])"
| "run (Boundary negated) st = (if at_boundary st \<noteq> negated then [st] else [])"
| "run Eps st = [st]"
| "run (Seq a b) st = concat (map (run b) (run a st))"
| "run (Alt a b) st = run a st @ run b st"
| "run (Rep lo hi a) st = rep (run a) (groups a) lo hi st"
| "run (Group k a) st = map (capture k st) (run a st)"
| "run (Backref k) st = backref k st"

text \<open>
  \<^verbatim>\<open>regex.test(s)\<close> without the flags \<^verbatim>\<open>g\<close> and \<^verbatim>\<open>y\<close>: a match may start at any index,
  with no capture set. \<open>match_at r u v\<close> says that \<open>r\<close> matches in the text \<open>u @ v\<close>
  from the index where \<open>v\<close> starts.
\<close>

definition match_at :: "rx \<Rightarrow> string \<Rightarrow> string \<Rightarrow> bool" where
  "match_at r u v = (run r (if u = [] then None else Some (last u), v, []) \<noteq> [])"

definition test :: "rx \<Rightarrow> string \<Rightarrow> bool" where
  "test r s = list_ex (\<lambda>k. match_at r (take k s) (drop k s)) [0..<Suc (length s)]"

subsection \<open>Numbers and escapes\<close>

definition digit_value :: "char \<Rightarrow> nat option" where
  "digit_value = map_of
     [(CHR ''0'', 0), (CHR ''1'', 1), (CHR ''2'', 2), (CHR ''3'', 3), (CHR ''4'', 4),
      (CHR ''5'', 5), (CHR ''6'', 6), (CHR ''7'', 7), (CHR ''8'', 8), (CHR ''9'', 9)]"

definition octal_value :: "char \<Rightarrow> nat option" where
  "octal_value = map_of
     [(CHR ''0'', 0), (CHR ''1'', 1), (CHR ''2'', 2), (CHR ''3'', 3), (CHR ''4'', 4),
      (CHR ''5'', 5), (CHR ''6'', 6), (CHR ''7'', 7)]"

definition hex_value :: "char \<Rightarrow> nat option" where
  "hex_value = map_of
     [(CHR ''0'', 0), (CHR ''1'', 1), (CHR ''2'', 2), (CHR ''3'', 3), (CHR ''4'', 4),
      (CHR ''5'', 5), (CHR ''6'', 6), (CHR ''7'', 7), (CHR ''8'', 8), (CHR ''9'', 9),
      (CHR ''a'', 10), (CHR ''b'', 11), (CHR ''c'', 12), (CHR ''d'', 13), (CHR ''e'', 14),
      (CHR ''f'', 15), (CHR ''A'', 10), (CHR ''B'', 11), (CHR ''C'', 12), (CHR ''D'', 13),
      (CHR ''E'', 14), (CHR ''F'', 15)]"

text \<open>The values of the longest run of digits at the front of a text, and their number.\<close>

fun leading :: "(char \<Rightarrow> nat option) \<Rightarrow> string \<Rightarrow> nat list" where
  "leading val [] = []"
| "leading val (c # cs) = (case val c of None \<Rightarrow> [] | Some d \<Rightarrow> d # leading val cs)"

definition number :: "nat \<Rightarrow> nat list \<Rightarrow> nat" where
  "number base ds = foldl (\<lambda>a d. base * a + d) 0 ds"

text \<open>
  The text after an opening brace, read as a quantifier: the bounds and the number of
  characters up to the closing brace, or \<open>None\<close> when the brace opens no quantifier and
  stands for itself.
\<close>

definition braces :: "string \<Rightarrow> (nat \<times> nat option \<times> nat) option" where
  "braces cs =
     (let ds = leading digit_value cs;
          rest = drop (length ds) cs
      in if ds = [] then None
         else if startsWith rest ''}'' then
           Some (number 10 ds, Some (number 10 ds), Suc (length ds))
         else if startsWith rest '','' then
           (let es = leading digit_value (drop 1 rest)
            in if startsWith (drop (Suc (length es)) rest) ''}''
               then Some (number 10 ds, if es = [] then None else Some (number 10 es),
                          length ds + length es + 2)
               else None)
         else None)"

text \<open>
  What an escape stands for: a character, a code unit, a set (with the flag of the
  complement), a word boundary assertion, a back reference, or, for \<^verbatim>\<open>\c\<close> that no control
  letter follows, the backslash itself.
\<close>

datatype escape =
    Lit char
  | Code nat
  | Set bool "(nat \<times> nat) list"
  | Assertion bool
  | Ref nat
  | Backslash

definition control_escape :: "char \<Rightarrow> char option" where
  "control_escape = map_of
     [(CHR ''f'', CHR 0x0C), (CHR ''n'', CHR 0x0A), (CHR ''r'', CHR 0x0D),
      (CHR ''t'', CHR 0x09), (CHR ''v'', CHR 0x0B)]"

definition class_escape :: "char \<Rightarrow> escape option" where
  "class_escape = map_of
     [(CHR ''d'', Set False digit_set), (CHR ''D'', Set True digit_set),
      (CHR ''w'', Set False word_set), (CHR ''W'', Set True word_set),
      (CHR ''s'', Set False space_set), (CHR ''S'', Set True space_set)]"

definition ascii_letter :: "char \<Rightarrow> bool" where
  "ascii_letter c = in_ranges [(65, 90), (97, 122)] (of_char c)"

text \<open>
  The old octal escape: up to three octal digits when the first is below 4, up to two
  otherwise. The result is the value and the number of digits.
\<close>

definition octal :: "string \<Rightarrow> nat \<times> nat" where
  "octal cs =
     (let ds = leading octal_value (take (if startsWith cs ''0'' \<or> startsWith cs ''1''
                                              \<or> startsWith cs ''2'' \<or> startsWith cs ''3''
                                           then 3 else 2) cs)
      in (number 8 ds, length ds))"

text \<open>
  The escapes that mean the same inside and outside a class (\<^verbatim>\<open>CharacterEscape\<close>), for
  the character \<open>d\<close> after the backslash and the text \<open>ds\<close> after it. The second component
  is the number of characters of the escape after the backslash. \<^verbatim>\<open>\x\<close> and \<^verbatim>\<open>\u\<close> without
  their hexadecimal digits, and every character without a meaning of its own, stand for
  themselves.
\<close>

definition character_escape :: "char \<Rightarrow> string \<Rightarrow> escape \<times> nat" where
  "character_escape d ds =
     (case control_escape d of
        Some c \<Rightarrow> (Lit c, 1)
      | None \<Rightarrow>
          if d = CHR ''x'' then
            (case map hex_value (take 2 ds) of
               [Some a, Some b] \<Rightarrow> (Code (16 * a + b), 3)
             | _ \<Rightarrow> (Lit d, 1))
          else if d = CHR ''u'' then
            (case map hex_value (take 4 ds) of
               [Some a, Some b, Some c, Some e] \<Rightarrow> (Code (4096 * a + 256 * b + 16 * c + e), 5)
             | _ \<Rightarrow> (Lit d, 1))
          else if octal_value d \<noteq> None then (Code (fst (octal (d # ds))), snd (octal (d # ds)))
          else (Lit d, 1))"

text \<open>
  The escape outside a class (\<^verbatim>\<open>AtomEscape\<close>). A decimal number is a back reference
  when the expression has that many groups, and an octal escape or the digit itself
  otherwise; \<open>ngroups\<close> is the number of capturing groups of the whole expression.
\<close>

definition atom_escape :: "nat \<Rightarrow> char \<Rightarrow> string \<Rightarrow> escape \<times> nat" where
  "atom_escape ngroups d ds =
     (if d = CHR ''b'' then (Assertion False, 1)
      else if d = CHR ''B'' then (Assertion True, 1)
      else if d = CHR ''c'' then
        (if ds \<noteq> [] \<and> ascii_letter (hd ds) then (Code (of_char (hd ds) mod (32::nat)), 2)
         else (Backslash, 0))
      else
        (case class_escape d of
           Some e \<Rightarrow> (e, 1)
         | None \<Rightarrow>
             if digit_value d \<noteq> None \<and> d \<noteq> CHR ''0''
                \<and> number 10 (leading digit_value (d # ds)) \<le> ngroups
             then (Ref (number 10 (leading digit_value (d # ds))),
                   length (leading digit_value (d # ds)))
             else character_escape d ds))"

text \<open>
  The escape inside a class (\<^verbatim>\<open>ClassEscape\<close>): \<^verbatim>\<open>\b\<close> is the backspace, a digit or an
  underscore may follow \<^verbatim>\<open>\c\<close> as well, and there are no back references.
\<close>

definition in_class_escape :: "char \<Rightarrow> string \<Rightarrow> escape \<times> nat" where
  "in_class_escape d ds =
     (if d = CHR ''b'' then (Code 8, 1)
      else if d = CHR ''c'' then
        (if ds \<noteq> [] \<and> (ascii_letter (hd ds) \<or> digit_value (hd ds) \<noteq> None \<or> hd ds = CHR ''_'')
         then (Code (of_char (hd ds) mod (32::nat)), 2)
         else (Backslash, 0))
      else
        (case class_escape d of
           Some e \<Rightarrow> (e, 1)
         | None \<Rightarrow> character_escape d ds))"

subsection \<open>Character classes\<close>

text \<open>The complement of a sorted list of ranges among the code units from \<open>lo\<close> on.\<close>

fun complement :: "nat \<Rightarrow> (nat \<times> nat) list \<Rightarrow> (nat \<times> nat) list" where
  "complement lo [] = (if lo \<le> 65535 then [(lo, 65535)] else [])"
| "complement lo ((a, b) # rs) = (if lo < a then [(lo, a - 1)] else []) @ complement (Suc b) rs"

fun single :: "escape \<Rightarrow> nat option" where
  "single (Lit c) = Some (of_char c)"
| "single (Code n) = Some n"
| "single Backslash = Some 92"
| "single e = None"

fun members :: "escape \<Rightarrow> (nat \<times> nat) list" where
  "members (Lit c) = [(of_char c, of_char c)]"
| "members (Code n) = [(n, n)]"
| "members Backslash = [(92, 92)]"
| "members (Set negated rs) = (if negated then complement 0 rs else rs)"
| "members e = []"

text \<open>
  One atom of a class that starts with the character \<open>c\<close>, which is not the closing
  bracket: what it stands for and the number of characters it takes after \<open>c\<close>. A class
  cannot end in a backslash.
\<close>

definition class_atom :: "char \<Rightarrow> string \<Rightarrow> (escape \<times> nat) option" where
  "class_atom c cs =
     (if c = CHR 0x5C then
        (case cs of [] \<Rightarrow> None | d # ds \<Rightarrow> Some (in_class_escape d ds))
      else Some (Lit c, 0))"

text \<open>
  The body of a class up to its closing bracket: the ranges and the number of characters
  read, the bracket included. A dash between two atoms makes a range, which must not
  run backwards; when one of the two is a set, the dash stands for itself. \<open>None\<close> is a
  class that the constructor rejects.
\<close>

function class_ranges :: "string \<Rightarrow> (nat \<times> nat) list \<Rightarrow> ((nat \<times> nat) list \<times> nat) option" where
  "class_ranges [] acc = None"
| "class_ranges (c # cs) acc =
     (if c = CHR '']'' then Some (acc, 1)
      else
        (case class_atom c cs of
           None \<Rightarrow> None
         | Some (a, k) \<Rightarrow>
             (let rest = drop k cs
              in if startsWith rest ''-'' \<and> 2 \<le> length rest \<and> \<not> startsWith (drop 1 rest) '']''
                 then
                   (case class_atom (rest ! 1) (drop 2 rest) of
                      None \<Rightarrow> None
                    | Some (b, j) \<Rightarrow>
                        (case (single a, single b) of
                           (Some x, Some y) \<Rightarrow>
                             if y < x then None
                             else map_option (\<lambda>(rs, n). (rs, n + k + j + 3))
                                    (class_ranges (drop (j + 2) rest) (acc @ [(x, y)]))
                         | _ \<Rightarrow>
                             map_option (\<lambda>(rs, n). (rs, n + k + j + 3))
                               (class_ranges (drop (j + 2) rest)
                                  (acc @ members a @ [(45, 45)] @ members b))))
                 else map_option (\<lambda>(rs, n). (rs, n + k + 1))
                        (class_ranges rest (acc @ members a)))))"
  by pat_completeness auto
termination
  by (relation "measure (\<lambda>(cs, acc). length cs)") auto

subsection \<open>The constructor\<close>

text \<open>
  The number of capturing groups of a source text, which the constructor needs before it
  reads the escapes: the opening parentheses that are not escaped, not in a class and not
  followed by a question mark.
\<close>

fun count_groups :: "bool \<Rightarrow> string \<Rightarrow> nat" where
  "count_groups in_class [] = 0"
| "count_groups in_class [c] = (if \<not> in_class \<and> c = CHR ''('' then 1 else 0)"
| "count_groups in_class (c # d # cs) =
     (if c = CHR 0x5C then count_groups in_class cs
      else if in_class then count_groups (c \<noteq> CHR '']'') (d # cs)
      else if c = CHR ''['' then count_groups True (d # cs)
      else if c = CHR ''('' \<and> d \<noteq> CHR ''?'' then Suc (count_groups False (d # cs))
      else count_groups False (d # cs))"

text \<open>
  The constructor reads the source in one pass with a stack of open groups. A frame holds
  the number of its group (\<open>None\<close> for the whole expression and for a \<^verbatim>\<open>(?:\<close> group), the
  finished alternatives, the terms of the alternative being read, and whether the last
  term may take a quantifier.
\<close>

fun sequence :: "rx list \<Rightarrow> rx" where
  "sequence [] = Eps"
| "sequence [a] = a"
| "sequence (a # b # bs) = Seq a (sequence (b # bs))"

fun disjunction :: "rx list \<Rightarrow> rx" where
  "disjunction [] = Eps"
| "disjunction [a] = a"
| "disjunction (a # b # bs) = Alt a (disjunction (b # bs))"

type_synonym frame = "nat option \<times> rx list \<times> rx list \<times> bool"

definition close_frame :: "frame \<Rightarrow> rx" where
  "close_frame f =
     (case f of (g, alts, cur, q) \<Rightarrow>
        (case g of
           None \<Rightarrow> disjunction (alts @ [sequence cur])
         | Some k \<Rightarrow> Group k (disjunction (alts @ [sequence cur]))))"

definition add_term :: "frame \<Rightarrow> rx \<Rightarrow> bool \<Rightarrow> frame" where
  "add_term f a quantifiable = (case f of (g, alts, cur, q) \<Rightarrow> (g, alts, cur @ [a], quantifiable))"

definition next_alternative :: "frame \<Rightarrow> frame" where
  "next_alternative f = (case f of (g, alts, cur, q) \<Rightarrow> (g, alts @ [sequence cur], [], False))"

definition quantify :: "frame \<Rightarrow> nat \<Rightarrow> nat option \<Rightarrow> frame option" where
  "quantify f lo hi =
     (case f of (g, alts, cur, q) \<Rightarrow>
        if q \<and> cur \<noteq> [] then Some (g, alts, butlast cur @ [Rep lo hi (last cur)], False)
        else None)"

text \<open>The question mark that makes a quantifier lazy is read with it.\<close>

definition lazy :: "string \<Rightarrow> nat" where
  "lazy cs = (if startsWith cs ''?'' then 1 else 0)"

fun atom :: "escape \<Rightarrow> rx \<times> bool" where
  "atom (Lit c) = (Chr c, True)"
| "atom (Code n) = (if n < 256 then Chr (char_of n) else Cls False [(n, n)], True)"
| "atom (Set negated rs) = (Cls negated rs, True)"
| "atom (Assertion negated) = (Boundary negated, False)"
| "atom (Ref k) = (Backref k, True)"
| "atom Backslash = (Chr (CHR 0x5C), True)"

text \<open>
  The result of the constructor: the expression, \<open>Rejected\<close> for a source that makes it
  throw a \<^verbatim>\<open>SyntaxError\<close>, or \<open>Unmodelled\<close>.
\<close>

datatype compiled = Compiled rx | Rejected | Unmodelled

fun RegExp_parse :: "nat \<Rightarrow> nat \<Rightarrow> frame list \<Rightarrow> string \<Rightarrow> compiled" where
  "RegExp_parse ngroups n stack [] =
     (case stack of [f] \<Rightarrow> Compiled (close_frame f) | _ \<Rightarrow> Rejected)"
| "RegExp_parse ngroups n [] (c # cs) = Rejected"
| "RegExp_parse ngroups n (f # stack) (c # cs) =
     (if c = CHR ''('' then
        (if startsWith cs ''?:'' then
           RegExp_parse ngroups n ((None, [], [], False) # f # stack) (drop 2 cs)
         else if startsWith cs ''?'' then Unmodelled
         else RegExp_parse ngroups (Suc n) ((Some (Suc n), [], [], False) # f # stack) cs)
      else if c = CHR '')'' then
        (case stack of
           [] \<Rightarrow> Rejected
         | f' # stack' \<Rightarrow> RegExp_parse ngroups n (add_term f' (close_frame f) True # stack') cs)
      else if c = CHR ''|'' then RegExp_parse ngroups n (next_alternative f # stack) cs
      else if c = CHR ''*'' then
        (case quantify f 0 None of
           None \<Rightarrow> Rejected
         | Some f' \<Rightarrow> RegExp_parse ngroups n (f' # stack) (drop (lazy cs) cs))
      else if c = CHR ''+'' then
        (case quantify f 1 None of
           None \<Rightarrow> Rejected
         | Some f' \<Rightarrow> RegExp_parse ngroups n (f' # stack) (drop (lazy cs) cs))
      else if c = CHR ''?'' then
        (case quantify f 0 (Some 1) of
           None \<Rightarrow> Rejected
         | Some f' \<Rightarrow> RegExp_parse ngroups n (f' # stack) (drop (lazy cs) cs))
      else if c = CHR ''{'' then
        (case braces cs of
           None \<Rightarrow> RegExp_parse ngroups n (add_term f (Chr c) True # stack) cs
         | Some (lo, hi, k) \<Rightarrow>
             if (case hi of None \<Rightarrow> False | Some h \<Rightarrow> h < lo) then Rejected
             else
               (case quantify f lo hi of
                  None \<Rightarrow> Rejected
                | Some f' \<Rightarrow>
                    RegExp_parse ngroups n (f' # stack) (drop (k + lazy (drop k cs)) cs)))
      else if c = CHR ''^'' then RegExp_parse ngroups n (add_term f Bol False # stack) cs
      else if c = CHR ''$'' then RegExp_parse ngroups n (add_term f Eol False # stack) cs
      else if c = CHR ''.'' then RegExp_parse ngroups n (add_term f Dot True # stack) cs
      else if c = CHR 0x5C then
        (case cs of
           [] \<Rightarrow> Rejected
         | d # ds \<Rightarrow>
             (case atom_escape ngroups d ds of
                (e, k) \<Rightarrow>
                  RegExp_parse ngroups n (add_term f (fst (atom e)) (snd (atom e)) # stack)
                    (drop k cs)))
      else if c = CHR ''['' then
        (case class_ranges (drop (if startsWith cs ''^'' then 1 else 0) cs) [] of
           None \<Rightarrow> Rejected
         | Some (rs, k) \<Rightarrow>
             RegExp_parse ngroups n (add_term f (Cls (startsWith cs ''^'') rs) True # stack)
               (drop ((if startsWith cs ''^'' then 1 else 0) + k) cs))
      else RegExp_parse ngroups n (add_term f (Chr c) True # stack) cs)"

definition RegExp :: "string \<Rightarrow> compiled" where
  "RegExp source = RegExp_parse (count_groups False source) 0 [(None, [], [], False)] source"

section \<open>Ignore rules\<close>

text \<open>\<^verbatim>\<open>GitignoreRule\<close> and \<^verbatim>\<open>GitignoreParser\<close> (utils/gitignore-parser.ts); a parser is its rule list.\<close>

record GitignoreRule =
  pattern :: string
  isNegation :: bool
  isDirectory_r :: bool
  regex :: rx

text \<open>\<^verbatim>\<open>s.replace(/\*\*/g, ".*")\<close>: the matches are taken from the left and do not overlap.\<close>

fun replace_double_star :: "string \<Rightarrow> string" where
  "replace_double_star [] = []"
| "replace_double_star [c] = [c]"
| "replace_double_star (c # d # cs) =
     (if c = CHR ''*'' \<and> d = CHR ''*'' then ''.*'' @ replace_double_star cs
      else c # replace_double_star (d # cs))"

text \<open>
  \<^verbatim>\<open>patternToRegex\<close>: the four replacements in the order of the source (so the star that
  the third puts in is hit by the fourth), the anchor at the front, the tail at the end.
  A text the constructor rejects gives \<^verbatim>\<open>null\<close>. The source text that comes out has no
  \<^verbatim>\<open>(?\<close> in it, whatever the pattern, so the constructor never answers \<open>Unmodelled\<close> here
  (lemma \<open>patternToRegex_modelled\<close>).
\<close>

definition patternToRegex_source :: "string \<Rightarrow> string" where
  "patternToRegex_source pat =
     (let regexPattern =
            replace_chars (\<lambda>c. c = CHR ''*'') (\<lambda>c. ''[^/]*'')
              (replace_double_star
                 (replace_chars (\<lambda>c. c = CHR ''?'') (\<lambda>c. ''[^/]'')
                    (replace_chars (\<lambda>c. c = CHR 0x5C \<or> c \<in> set ''.+^${}()|'')
                       (\<lambda>c. [CHR 0x5C, c]) pat)));
          regexPattern' = (if startsWith pat ''/'' then ''^'' @ drop 1 regexPattern
                           else ''(^|/)'' @ regexPattern)
      in regexPattern' @ ''(/.*)?$'')"

definition patternToRegex :: "string \<Rightarrow> rx option" where
  "patternToRegex pat =
     (case RegExp (patternToRegex_source pat) of Compiled r \<Rightarrow> Some r | _ \<Rightarrow> None)"

definition parseRule :: "string \<Rightarrow> GitignoreRule option" where
  "parseRule pat =
     (let isNeg = startsWith pat ''!'';
          cleanPattern = (if isNeg then drop 1 pat else pat);
          isDir = endsWith cleanPattern ''/'';
          cleanPattern' = (if isDir then butlast cleanPattern else cleanPattern)
      in case patternToRegex cleanPattern' of
           None \<Rightarrow> None
         | Some r \<Rightarrow> Some \<lparr>pattern = cleanPattern', isNegation = isNeg,
                            isDirectory_r = isDir, regex = r\<rparr>)"

text \<open>\<^verbatim>\<open>content.split("\n")\<close> and \<^verbatim>\<open>line.trim()\<close>.\<close>

fun split_lines :: "string \<Rightarrow> string list" where
  "split_lines [] = [[]]"
| "split_lines (c # cs) =
     (if c = CHR 0x0A then [] # split_lines cs
      else (case split_lines cs of l # ls \<Rightarrow> (c # l) # ls | [] \<Rightarrow> [[c]]))"

definition white_space :: "char \<Rightarrow> bool" where
  "white_space c = (c \<in> {CHR 0x09, CHR 0x0A, CHR 0x0B, CHR 0x0C, CHR 0x0D, CHR 0x20, CHR 0xA0})"

definition trim :: "string \<Rightarrow> string" where
  "trim s = rev (dropWhile white_space (rev (dropWhile white_space s)))"

definition fromContent :: "string \<Rightarrow> GitignoreRule list" where
  "fromContent content =
     fold (\<lambda>line rules.
             let trimmed = trim line
             in if trimmed = [] \<or> startsWith trimmed ''#'' then rules
                else (case parseRule trimmed of None \<Rightarrow> rules | Some rule \<Rightarrow> rules @ [rule]))
          (split_lines content) []"

text \<open>\<^verbatim>\<open>fromFile\<close>: a file that cannot be read gives the empty parser.\<close>

definition fromFile :: "node \<Rightarrow> path \<Rightarrow> GitignoreRule list" where
  "fromFile root gitignorePath =
     (case readFile root gitignorePath of Inl e \<Rightarrow> [] | Inr content \<Rightarrow> fromContent content)"

text \<open>\<^verbatim>\<open>filePath.replace(/\\/g, "/")\<close>: every backslash becomes a slash.\<close>

definition normalized :: "string \<Rightarrow> string" where
  "normalized filePath = map (\<lambda>c. if c = CHR 0x5C then CHR ''/'' else c) filePath"

definition shouldIgnore :: "GitignoreRule list \<Rightarrow> string \<Rightarrow> bool \<Rightarrow> bool" where
  "shouldIgnore rules filePath isDir =
     (let normalizedPath = normalized filePath
      in fold (\<lambda>rule isIgnored.
                 if isDirectory_r rule \<and> \<not> isDir then isIgnored
                 else if test (regex rule) normalizedPath then \<not> isNegation rule
                 else isIgnored)
              rules False)"

text \<open>
  \<^verbatim>\<open>findGitignoreFiles\<close> walks every directory that is not hidden, down to depth 10, and
  collects the \<^verbatim>\<open>.gitignore\<close> paths that \<^verbatim>\<open>fs.access\<close> finds; \<open>searchDirectory\<close> is the inner
  function on the node that stands at \<open>dir\<close>.
\<close>

fun access_node :: "node \<Rightarrow> bool" where
  "access_node nd = (follow nd \<noteq> None)"

fun searchDirectory :: "nat \<Rightarrow> path \<Rightarrow> nat \<Rightarrow> node \<Rightarrow> path list \<Rightarrow> path list"
  and searchDirectory_entries :: "nat \<Rightarrow> path \<Rightarrow> nat \<Rightarrow> (string \<times> node) list \<Rightarrow> path list \<Rightarrow> path list" where
  "searchDirectory limit dir depth (Dir es r) found =
     (if depth > limit then found
      else
        let found' = (case map_of es ''.gitignore'' of
                        Some g \<Rightarrow> if access_node g then found @ [join dir ''.gitignore''] else found
                      | None \<Rightarrow> found)
        in if r then searchDirectory_entries limit dir depth es found' else found')"
| "searchDirectory limit dir depth (Symlink (Some t)) found = searchDirectory limit dir depth t found"
| "searchDirectory limit dir depth (Symlink None) found = found"
| "searchDirectory limit dir depth (File c r) found = found"
| "searchDirectory limit dir depth Other found = found"
| "searchDirectory_entries limit dir depth [] found = found"
| "searchDirectory_entries limit dir depth ((nm, entry) # es) found =
     searchDirectory_entries limit dir depth es
       (case entry of
          Dir es' r' \<Rightarrow>
            if \<not> startsWith nm ''.''
            then searchDirectory limit (join dir nm) (Suc depth) (Dir es' r') found
            else found
        | File c r \<Rightarrow> found
        | Symlink t \<Rightarrow> found
        | Other \<Rightarrow> found)"

definition findGitignoreFiles :: "node \<Rightarrow> path \<Rightarrow> path list" where
  "findGitignoreFiles root directory =
     (case resolve root directory of None \<Rightarrow> [] | Some nd \<Rightarrow> searchDirectory 10 directory 0 nd [])"

definition createCombinedParser :: "node \<Rightarrow> path \<Rightarrow> GitignoreRule list" where
  "createCombinedParser root directory =
     fold (\<lambda>gitignoreFile combined. combined @ fromFile root gitignoreFile)
       (findGitignoreFiles root directory) []"

section \<open>The scanner\<close>

record ScanOptions =
  directory :: path
  includeHidden :: bool
  followSymlinks :: bool
  ignorePatterns :: "string list"
  maxDepth :: "nat option"

record ScanResult =
  files_r :: "FileMetadata list"
  directories_r :: "FileMetadata list"
  totalFiles :: nat
  totalSize_r :: int

text \<open>
  \<^verbatim>\<open>shouldIgnoreFile\<close> (utils/file-utils.ts). The pattern text goes through three
  replacements and into the constructor, whose \<^verbatim>\<open>SyntaxError\<close> nothing in the function
  catches; \<^verbatim>\<open>some\<close> stops at the first pattern that matches. The source text has no
  question mark left in it, so the constructor never answers \<open>Unmodelled\<close> here (lemma
  \<open>glob_source_modelled\<close>).
\<close>

definition glob_source :: "string \<Rightarrow> string" where
  "glob_source pat =
     replace_chars (\<lambda>c. c = CHR ''?'') (\<lambda>c. ''.'')
       (replace_chars (\<lambda>c. c = CHR ''*'') (\<lambda>c. ''.*'')
          (replace_chars (\<lambda>c. c = CHR ''.'') (\<lambda>c. [CHR 0x5C, CHR ''.'']) pat))"

datatype scan_error = SyntaxError

fun some_matches :: "string \<Rightarrow> string list \<Rightarrow> scan_error + bool" where
  "some_matches normalizedPath [] = Inr False"
| "some_matches normalizedPath (pat # pats) =
     (case RegExp (glob_source pat) of
        Compiled r \<Rightarrow> if test r normalizedPath then Inr True else some_matches normalizedPath pats
      | _ \<Rightarrow> Inl SyntaxError)"

definition shouldIgnoreFile :: "string \<Rightarrow> string list \<Rightarrow> scan_error + bool" where
  "shouldIgnoreFile filePath pats =
     some_matches (normalized filePath) pats"

text \<open>
  \<^verbatim>\<open>getFileMetadata\<close>: \<^verbatim>\<open>fs.stat\<close> and the base name. The size that \<^verbatim>\<open>stat\<close> reports for a
  directory depends on the file system and is used nowhere; the model reports 0.
\<close>

definition getFileMetadata :: "node \<Rightarrow> path \<Rightarrow> fs_error + FileMetadata" where
  "getFileMetadata root filePath =
     (case stat root filePath of
        Inl e \<Rightarrow> Inl e
      | Inr (sz, isDir) \<Rightarrow>
          Inr \<lparr>path = filePath, name = basename filePath, size_f = sz,
               isDirectory = isDir, hash = None\<rparr>)"

text \<open>
  \<^verbatim>\<open>getFilePathsNative\<close>: \<open>scanDirectory\<close> is the inner function on the node that stands at
  the directory path, \<open>scanDirectory_entries\<close> its loop over the listing. \<open>filePaths\<close> is the array the
  closure pushes to.
\<close>

definition depth_reached :: "ScanOptions \<Rightarrow> nat \<Rightarrow> bool" where
  "depth_reached opts currentDepth =
     (case maxDepth opts of None \<Rightarrow> False | Some d \<Rightarrow> d \<noteq> 0 \<and> currentDepth \<ge> d)"

fun scanDirectory ::
    "ScanOptions \<Rightarrow> GitignoreRule list \<Rightarrow> path \<Rightarrow> nat \<Rightarrow> node \<Rightarrow> path list \<Rightarrow> path list"
  and scanDirectory_entries ::
    "ScanOptions \<Rightarrow> GitignoreRule list \<Rightarrow> path \<Rightarrow> nat \<Rightarrow> (string \<times> node) list \<Rightarrow> path list
       \<Rightarrow> path list" where
  "scanDirectory opts rules dir currentDepth (Dir es r) filePaths =
     (if depth_reached opts currentDepth then filePaths
      else if r then scanDirectory_entries opts rules dir currentDepth es filePaths
      else filePaths)"
| "scanDirectory opts rules dir currentDepth (Symlink (Some t)) filePaths =
     scanDirectory opts rules dir currentDepth t filePaths"
| "scanDirectory opts rules dir currentDepth (Symlink None) filePaths = filePaths"
| "scanDirectory opts rules dir currentDepth (File c r) filePaths = filePaths"
| "scanDirectory opts rules dir currentDepth Other filePaths = filePaths"
| "scanDirectory_entries opts rules dir currentDepth [] filePaths = filePaths"
| "scanDirectory_entries opts rules dir currentDepth ((nm, entry) # es) filePaths =
     scanDirectory_entries opts rules dir currentDepth es
       (let fullPath = join dir nm;
            relativePath = join_slash (relative (directory opts) fullPath)
        in if \<not> includeHidden opts \<and> startsWith nm ''.'' then filePaths
           else if shouldIgnore rules relativePath (dirent_isDirectory entry) then filePaths
           else
             (case entry of
                Dir es' r' \<Rightarrow>
                  scanDirectory opts rules fullPath (Suc currentDepth) (Dir es' r')
                    (filePaths @ [fullPath])
              | Symlink t \<Rightarrow>
                  if followSymlinks opts then
                    (case stat_node (Symlink t) of
                       Inr (sz, True) \<Rightarrow>
                         (case t of
                            Some t' \<Rightarrow> scanDirectory opts rules fullPath (Suc currentDepth) t'
                                         (filePaths @ [fullPath])
                          | None \<Rightarrow> filePaths @ [fullPath])
                     | Inr (sz, False) \<Rightarrow> filePaths @ [fullPath]
                     | Inl e \<Rightarrow> filePaths @ [fullPath])
                  else filePaths @ [fullPath]
              | File c r \<Rightarrow> filePaths @ [fullPath]
              | Other \<Rightarrow> filePaths @ [fullPath]))"

definition getFilePathsNative :: "node \<Rightarrow> ScanOptions \<Rightarrow> path list" where
  "getFilePathsNative root opts =
     (let gitignoreParser = createCombinedParser root (directory opts)
      in case resolve root (directory opts) of
           None \<Rightarrow> []
         | Some nd \<Rightarrow> scanDirectory opts gitignoreParser (directory opts) 0 nd [])"

text \<open>
  \<^verbatim>\<open>scan\<close>. One \<^verbatim>\<open>try\<close> block holds \<^verbatim>\<open>getFileMetadata\<close>, \<^verbatim>\<open>calculateFileHash\<close> and the
  \<^verbatim>\<open>push\<close>; its \<^verbatim>\<open>catch\<close> logs and goes on to the next path. The error of
  \<^verbatim>\<open>shouldIgnoreFile\<close> is raised outside that block and ends the scan.
\<close>

fun scan_loop ::
  "(string \<Rightarrow> string) \<Rightarrow> node \<Rightarrow> ScanOptions \<Rightarrow> path list
     \<Rightarrow> FileMetadata list \<times> FileMetadata list \<times> int
     \<Rightarrow> scan_error + (FileMetadata list \<times> FileMetadata list \<times> int)" where
  "scan_loop digest root opts [] acc = Inr acc"
| "scan_loop digest root opts (filePath # rest) (fs, ds, tot) =
     (case shouldIgnoreFile (render filePath) (ignorePatterns opts) of
        Inl e \<Rightarrow> Inl e
      | Inr True \<Rightarrow> scan_loop digest root opts rest (fs, ds, tot)
      | Inr False \<Rightarrow>
          (case getFileMetadata root filePath of
             Inl e \<Rightarrow> scan_loop digest root opts rest (fs, ds, tot)
           | Inr metadata \<Rightarrow>
               if isDirectory metadata then scan_loop digest root opts rest (fs, ds @ [metadata], tot)
               else if size_f metadata > 0 then
                 (case calculateFileHash digest root filePath of
                    Inl e \<Rightarrow> scan_loop digest root opts rest (fs, ds, tot)
                  | Inr h \<Rightarrow>
                      scan_loop digest root opts rest
                        (fs @ [metadata\<lparr>hash := Some h\<rparr>], ds, tot + size_f metadata))
               else scan_loop digest root opts rest (fs @ [metadata], ds, tot + size_f metadata)))"

definition scan :: "(string \<Rightarrow> string) \<Rightarrow> node \<Rightarrow> ScanOptions \<Rightarrow> scan_error + ScanResult" where
  "scan digest root opts =
     (case scan_loop digest root opts (getFilePathsNative root opts) ([], [], 0) of
        Inl e \<Rightarrow> Inl e
      | Inr (fs, ds, tot) \<Rightarrow>
          Inr \<lparr>files_r = fs, directories_r = ds, totalFiles = length fs, totalSize_r = tot\<rparr>)"

section \<open>Folder fingerprints, stated without the loop\<close>

text \<open>
  The entries that \<open>buildFolderStructure_entries\<close> collects from a listing, as comprehensions: the direct
  regular files with their path relative to the base directory and their fingerprint (the
  placeholder when the file cannot be read), and the immediate child directories with the
  structure hash that \<open>buildFolderStructure_node\<close> gives them under the same base directory.
\<close>

fun fingerprint :: "(string \<Rightarrow> string) \<Rightarrow> node \<Rightarrow> string" where
  "fingerprint digest (File c r) = (if r then digest c else ''error'')"
| "fingerprint digest n = ''error''"

definition direct_files ::
  "(string \<Rightarrow> string) \<Rightarrow> path \<Rightarrow> (string \<times> node) list \<Rightarrow> (string \<times> string) list" where
  "direct_files digest rel es =
     map (\<lambda>(nm, entry). (join_slash (rel @ [nm]), fingerprint digest entry))
       (filter (\<lambda>(nm, entry). dirent_isFile entry) es)"

definition child_dirs ::
  "(string \<Rightarrow> string) \<Rightarrow> path \<Rightarrow> path \<Rightarrow> (string \<times> node) list \<Rightarrow> (string \<times> string) list" where
  "child_dirs digest base rel es =
     map (\<lambda>(nm, entry). (nm, structureHash (buildFolderStructure_node digest (base @ rel @ [nm]) base entry)))
       (filter (\<lambda>(nm, entry). dirent_isDirectory entry) es)"

definition hash_input :: "(string \<times> string) list \<Rightarrow> (string \<times> string) list \<Rightarrow> string" where
  "hash_input files dirs =
     concat (map (\<lambda>(p, h). ''file:'' @ p @ '':'' @ h) (sort_key (\<lambda>(p, h). p @ '','' @ h) files))
     @ concat (map (\<lambda>(nm, h). ''dir:'' @ nm @ '':'' @ h)
                 (sort_key (\<lambda>(nm, h). nm @ '',[object Object]'') dirs))"

text \<open>
  The composite fingerprint as section 4.4 of the specification words it: one entry
  \<^verbatim>\<open>file:<relativePath>:<fingerprint>\<close> for every descendant file of the directory, the path
  relative to that directory, one entry \<^verbatim>\<open>dir:<name>:<childCompositeFingerprint>\<close> for
  every immediate child directory, each list sorted as text, and the digest of the
  concatenation. A file whose fingerprint failed carries the sentinel.
\<close>

fun spec_descendant_files :: "(string \<Rightarrow> string) \<Rightarrow> path \<Rightarrow> node \<Rightarrow> string list"
  and spec_descendant_entries :: "(string \<Rightarrow> string) \<Rightarrow> path \<Rightarrow> (string \<times> node) list \<Rightarrow> string list" where
  "spec_descendant_files digest rel (Dir es r) = spec_descendant_entries digest rel es"
| "spec_descendant_files digest rel (File c r) =
     [''file:'' @ join_slash rel @ '':'' @ fingerprint digest (File c r)]"
| "spec_descendant_files digest rel (Symlink t) = []"
| "spec_descendant_files digest rel Other = []"
| "spec_descendant_entries digest rel [] = []"
| "spec_descendant_entries digest rel ((nm, entry) # es) =
     spec_descendant_files digest (rel @ [nm]) entry @ spec_descendant_entries digest rel es"

fun spec_compositeFingerprint :: "(string \<Rightarrow> string) \<Rightarrow> node \<Rightarrow> string"
  and spec_child_entries :: "(string \<Rightarrow> string) \<Rightarrow> (string \<times> node) list \<Rightarrow> string list" where
  "spec_compositeFingerprint digest (Dir es r) =
     digest (concat (sort (spec_descendant_entries digest [] es))
             @ concat (sort (spec_child_entries digest es)))"
| "spec_compositeFingerprint digest (File c r) = digest []"
| "spec_compositeFingerprint digest (Symlink t) = digest []"
| "spec_compositeFingerprint digest Other = digest []"
| "spec_child_entries digest [] = []"
| "spec_child_entries digest ((nm, entry) # es) =
     (case entry of
        Dir es' r' \<Rightarrow> [''dir:'' @ nm @ '':'' @ spec_compositeFingerprint digest (Dir es' r')]
      | File c r \<Rightarrow> []
      | Symlink t \<Rightarrow> []
      | Other \<Rightarrow> [])
     @ spec_child_entries digest es"

text \<open>
  Two trees that differ only in the order in which their directories list their
  entries: entry for entry the same names and, below them, trees that again differ only
  in order, and then any permutation of the listing.
\<close>

inductive reorder :: "node \<Rightarrow> node \<Rightarrow> bool" where
  reorder_File: "reorder (File c r) (File c r)"
| reorder_Other: "reorder Other Other"
| reorder_broken: "reorder (Symlink None) (Symlink None)"
| reorder_link: "reorder t t' \<Longrightarrow> reorder (Symlink (Some t)) (Symlink (Some t'))"
| reorder_Dir:
    "list_all2 (\<lambda>e e'. fst e = fst e' \<and> reorder (snd e) (snd e')) es es''
     \<Longrightarrow> mset es'' = mset es' \<Longrightarrow> reorder (Dir es r) (Dir es' r)"

text \<open>No directory lists a name twice.\<close>

fun wf_names :: "node \<Rightarrow> bool" where
  "wf_names (Dir es r) = (distinct (map fst es) \<and> (\<forall>e \<in> set es. wf_names (snd e)))"
| "wf_names (Symlink (Some t)) = wf_names t"
| "wf_names n = True"

definition comma_free :: "(string \<Rightarrow> string) \<Rightarrow> bool" where
  "comma_free digest = (\<forall>s. CHR '','' \<notin> set (digest s))"

section \<open>Definitions for the proofs\<close>

subsection \<open>Invariants\<close>

text \<open>
  The invariant of the grouping loops: after the elements \<open>xs\<close>, the map has one key for
  every key value seen, each once, and under it the elements of that key in their order.
\<close>

definition grouped :: "('a \<Rightarrow> 'k) \<Rightarrow> ('k \<times> 'a list) list \<Rightarrow> 'a list \<Rightarrow> bool" where
  "grouped key m xs \<longleftrightarrow>
     distinct (map fst m) \<and> set (map fst m) = key ` set xs \<and>
     (\<forall>(k, vs) \<in> set m. vs = filter (\<lambda>x. key x = k) xs)"

text \<open>The groups that an emitting loop appends, with the identifiers it draws for them.\<close>

fun emitted :: "(string \<Rightarrow> 'v \<Rightarrow> 'g) \<Rightarrow> (nat \<Rightarrow> string) \<Rightarrow> nat \<Rightarrow> 'v list \<Rightarrow> 'g list" where
  "emitted mk uuid n [] = []"
| "emitted mk uuid n (v # vs) = mk (uuid n) v # emitted mk uuid (Suc n) vs"

text \<open>The sub-structures that the loop of \<open>buildFolderStructure_entries\<close> stores, in listing order.\<close>

definition child_structs ::
  "(string \<Rightarrow> string) \<Rightarrow> path \<Rightarrow> path \<Rightarrow> (string \<times> node) list \<Rightarrow> (string \<times> FolderStructure) list" where
  "child_structs digest base rel es =
     map (\<lambda>(nm, entry). (nm, buildFolderStructure_node digest (base @ rel @ [nm]) base entry))
       (filter (\<lambda>(nm, entry). dirent_isDirectory entry) es)"

text \<open>
  The paths strictly below a directory, and the paths that the walker can list from the
  entries of a directory: those that start with an entry the rules do not ignore.
\<close>

definition below :: "path \<Rightarrow> path set" where
  "below dir = {p. \<exists>rest. rest \<noteq> [] \<and> p = dir @ rest}"


text \<open>
  A source text with a \<^verbatim>\<open>(?\<close> in it; on the others the constructor of the model is
  defined.
\<close>

fun marked :: "string \<Rightarrow> bool" where
  "marked (c # d # cs) = (c = CHR ''('' \<and> d = CHR ''?'' \<or> marked (d # cs))"
| "marked cs = False"

subsection \<open>Examples\<close>

text \<open>Records of a file and of a directory as the scanner builds them.\<close>

definition file_at :: "path \<Rightarrow> int \<Rightarrow> string option \<Rightarrow> FileMetadata" where
  "file_at p s h = \<lparr>path = p, name = last p, size_f = s, isDirectory = False, hash = h\<rparr>"

definition dir_at :: "path \<Rightarrow> FileMetadata" where
  "dir_at p = \<lparr>path = p, name = last p, size_f = 0, isDirectory = True, hash = None\<rparr>"

text \<open>Two directories with the same content and a third with another.\<close>

definition twin_tree :: node where
  "twin_tree = Dir [(''a'', Dir [(''x'', File ''hi'' True)] True),
                    (''b'', Dir [(''x'', File ''hi'' True)] True),
                    (''c'', Dir [(''y'', File ''ho'' True)] True)] True"

text \<open>
  A directory with a file one level down; a directory with a file whose name is a prefix
  of another's; and two listings of one tree in different orders, with a file that cannot
  be read.
\<close>

definition nested_tree :: node where
  "nested_tree = Dir [(''sub'', Dir [(''a.txt'', File ''x'' True)] True)] True"

definition flat_tree :: node where
  "flat_tree = Dir [(''a'', File ''x'' True), (''a.txt'', File ''y'' True)] True"

definition shuffled_a :: node where
  "shuffled_a = Dir [(''a'', File ''x'' True),
                     (''sub'', Dir [(''k'', File ''1'' True), (''l'', File ''2'' False)] True),
                     (''a.txt'', File ''y'' True)] True"

definition shuffled_b :: node where
  "shuffled_b = Dir [(''a.txt'', File ''y'' True),
                     (''sub'', Dir [(''l'', File ''2'' False), (''k'', File ''1'' True)] True),
                     (''a'', File ''x'' True)] True"

text \<open>A digest whose output holds no comma, for the runs that need one.\<close>

definition strip_commas :: "string \<Rightarrow> string" where
  "strip_commas s = filter (\<lambda>c. c \<noteq> CHR '','') s"

text \<open>
  A disk with one file; the backup path that \<open>createBackup\<close> gives it at the time stamp
  of the example; and the state after the delete of the file was recorded and the file
  removed.
\<close>

definition report_state :: undo_state where
  "report_state = \<lparr>operations = [], disk = [''/data/report.txt'' \<mapsto> ''hello''],
                    denied = {}, history = [], history_locked = False\<rparr>"

definition report_backup :: string where
  "report_backup = ''/home/u/.duplicates-finder/backups/2026-01-02T03-04-05-678Z_report.txt''"

definition deleted_state :: undo_state where
  "deleted_state =
     (case recordOperation ''/home/u'' ''undo_1'' 1 ''2026-01-02T03:04:05.678Z'' report_state
             \<lparr>id_u = [], timestamp = 0, action = DELETE, originalPath = ''/data/report.txt'',
              backupPath = None, newPath = None\<rparr> of
        Inr (i, st) \<Rightarrow> (case unlink st ''/data/report.txt'' of Inr st' \<Rightarrow> st' | Inl e \<Rightarrow> st)
      | Inl e \<Rightarrow> report_state)"

text \<open>A log of a delete and a move whose backup and destination files are gone.\<close>

definition orphan_state :: undo_state where
  "orphan_state = \<lparr>operations =
       [\<lparr>id_u = ''undo_1'', timestamp = 1, action = DELETE, originalPath = ''/data/a.txt'',
         backupPath = Some ''/backups/1_a.txt'', newPath = None\<rparr>,
        \<lparr>id_u = ''undo_2'', timestamp = 2, action = MOVE, originalPath = ''/data/b.txt'',
         backupPath = None, newPath = Some ''/archive/b.txt''\<rparr>],
     disk = [''/data/c.txt'' \<mapsto> ''c''], denied = {}, history = [], history_locked = False\<rparr>"

text \<open>
  The expression that the pattern \<^verbatim>\<open>*.log\<close> compiles to, and a tree and scan options to
  run it on.
\<close>

definition log_rx :: rx where
  "log_rx = Seq (Rep 0 None Dot)
              (Seq (Chr CHR ''.'') (Seq (Chr CHR ''l'') (Seq (Chr CHR ''o'') (Chr CHR ''g''))))"

definition log_tree :: node where
  "log_tree = Dir [(''proj'', Dir [(''a.login.txt'', File ''secret'' True),
                                 (''b.txt'', File ''plain'' True),
                                 (''c.log'', File ''lines'' True)] True)] True"

definition log_opts :: ScanOptions where
  "log_opts = \<lparr>directory = [''proj''], includeHidden = False, followSymlinks = False,
     ignorePatterns = [''*.log''], maxDepth = None\<rparr>"





definition keep_opts :: ScanOptions where
  "keep_opts = \<lparr>directory = [''proj''], includeHidden = False, followSymlinks = False,
     ignorePatterns = [], maxDepth = None\<rparr>"

definition lock_tree :: node where
  "lock_tree = Dir [(''proj'', Dir [(''a'', Dir [(''data.bin'', File ''xyz'' False)] True),
                                   (''b'', Dir [(''data.bin'', File ''xyz'' True)] True)] True)] True"

section \<open>Facts about regular expressions\<close>

text \<open>The repetition on a state written out, for running it on a given input.\<close>

lemma rep_state:
  "rep m gs lo hi (p, s, c) =
     (if hi = Some 0 then [(p, s, c)]
      else
        let again = concat (map (\<lambda>y. if lo = 0 \<and> length s \<le> length (fst (snd y)) then []
                                      else rep m gs (lo - 1) (map_option (\<lambda>h. h - 1) hi) y)
                              (m (p, s, filter (\<lambda>(j, t). j \<notin> set gs) c)))
        in if lo = 0 then again @ [(p, s, c)] else again)"
  by (subst rep.simps) simp

text \<open>A repetition without a lower bound may stop at once.\<close>

lemma rep_zero_rounds: "x \<in> set (rep m gs 0 hi x)"
  by (subst rep.simps) (simp add: Let_def)

text \<open>
  A match never ends before it starts: the rest of the input at the end of a match is a
  suffix of the rest at its start.
\<close>

lemma rep_cases:
  assumes "y \<in> set (rep m gs lo hi x)"
  shows "y = x \<or> (\<exists>z \<in> set (m (clear gs x)). hi \<noteq> Some 0
           \<and> \<not> (lo = 0 \<and> length (fst (snd x)) \<le> length (fst (snd z)))
           \<and> y \<in> set (rep m gs (lo - 1) (map_option (\<lambda>h. h - 1) hi) z))"
  using assms by (subst (asm) rep.simps) (auto simp: Let_def split: if_splits)

lemma clear_rest: "fst (snd (clear gs x)) = fst (snd x)"
  by (cases x) auto

lemma rep_suffix:
  "(\<And>x y. y \<in> set (m x) \<Longrightarrow> \<exists>w. fst (snd x) = w @ fst (snd y))
   \<Longrightarrow> y \<in> set (rep m gs lo hi x) \<Longrightarrow> \<exists>w. fst (snd x) = w @ fst (snd y)"
proof (induction m gs lo hi x rule: rep.induct)
  case (1 m gs lo hi x)
  from rep_cases[OF "1.prems"(2)] show ?case
  proof
    assume "y = x"
    then show ?thesis by simp
  next
    assume "\<exists>z \<in> set (m (clear gs x)). hi \<noteq> Some 0
           \<and> \<not> (lo = 0 \<and> length (fst (snd x)) \<le> length (fst (snd z)))
           \<and> y \<in> set (rep m gs (lo - 1) (map_option (\<lambda>h. h - 1) hi) z)"
    then obtain z where z: "z \<in> set (m (clear gs x))" and h: "hi \<noteq> Some 0"
      and c: "\<not> (lo = 0 \<and> length (fst (snd x)) \<le> length (fst (snd z)))"
      and y: "y \<in> set (rep m gs (lo - 1) (map_option (\<lambda>h. h - 1) hi) z)"
      by blast
    from "1.IH"[OF h z c "1.prems"(1) y] obtain w2 where w2: "fst (snd z) = w2 @ fst (snd y)"
      by blast
    from "1.prems"(1)[OF z] obtain w1 where "fst (snd x) = w1 @ fst (snd z)"
      by (auto simp: clear_rest)
    with w2 have "fst (snd x) = (w1 @ w2) @ fst (snd y)" by simp
    then show ?thesis by blast
  qed
qed

lemma eat_suffix: "y \<in> set (eat ok x) \<Longrightarrow> \<exists>c. fst (snd x) = c # fst (snd y)"
  by (cases "(ok, x)" rule: eat.cases) (auto split: if_splits)

lemma backref_suffix: "y \<in> set (backref k x) \<Longrightarrow> \<exists>w. fst (snd x) = w @ fst (snd y)"
proof (cases x)
  case (fields p s c)
  assume y: "y \<in> set (backref k x)"
  show ?thesis
  proof (cases "map_of c k")
    case None
    with y fields show ?thesis by simp
  next
    case (Some t)
    with y fields have "fst (snd y) = drop (length t) s" by (auto split: if_splits)
    with fields have "fst (snd x) = take (length t) s @ fst (snd y)" by simp
    then show ?thesis by blast
  qed
qed

lemma capture_rest: "fst (snd (capture k x y)) = fst (snd y)"
  by (cases x; cases y) simp

lemma run_suffix: "y \<in> set (run r st) \<Longrightarrow> \<exists>w. fst (snd st) = w @ fst (snd y)"
proof (induction r arbitrary: st y)
  case (Chr c)
  then show ?case using eat_suffix by (metis append_Cons append_Nil run.simps(1))
next
  case Dot
  then show ?case using eat_suffix by (metis append_Cons append_Nil run.simps(2))
next
  case (Cls b rs)
  then show ?case using eat_suffix by (metis append_Cons append_Nil run.simps(3))
next
  case (Seq a b)
  from Seq.prems obtain z where z: "z \<in> set (run a st)" and y: "y \<in> set (run b z)" by auto
  from Seq.IH(1)[OF z] Seq.IH(2)[OF y] show ?case by (metis append_assoc)
next
  case (Alt a b)
  from Alt.prems have "y \<in> set (run a st) \<or> y \<in> set (run b st)" by simp
  then show ?case using Alt.IH by blast
next
  case (Rep lo hi a)
  from Rep.prems have "y \<in> set (rep (run a) (groups a) lo hi st)" by simp
  then show ?case using Rep.IH by (rule rep_suffix[rotated])
next
  case (Group k a)
  from Group.prems obtain z where z: "z \<in> set (run a st)" and y: "y = capture k st z" by auto
  from Group.IH[OF z] y show ?case by (simp add: capture_rest)
next
  case (Backref k)
  then show ?case using backref_suffix by simp
qed (auto split: if_splits)

lemma marked_Cons: "marked cs \<Longrightarrow> marked (c # cs)"
  by (cases cs) auto

lemma marked_drop: "marked (drop k cs) \<Longrightarrow> marked cs"
proof (induction k arbitrary: cs)
  case 0
  then show ?case by simp
next
  case (Suc k)
  then show ?case by (cases cs) (auto intro: marked_Cons)
qed

lemma marked_question: "marked cs \<Longrightarrow> CHR ''?'' \<in> set cs"
  by (induction cs rule: marked.induct) auto

lemma marked_append:
  "marked (a @ b) \<Longrightarrow> marked a \<or> marked b \<or> (a \<noteq> [] \<and> b \<noteq> [] \<and> last a = CHR ''('' \<and> hd b = CHR ''?'')"
proof (induction a)
  case Nil
  then show ?case by simp
next
  case (Cons c a)
  show ?case
  proof (cases a)
    case Nil
    with Cons.prems show ?thesis by (cases b) auto
  next
    case (Cons d a')
    with Cons.prems Cons.IH show ?thesis by auto
  qed
qed

text \<open>
  The constructor of the model is defined on every source text without \<^verbatim>\<open>(?\<close>, and the
  two translators of the program produce no other.
\<close>

lemma parse_modelled: "\<not> marked cs \<Longrightarrow> RegExp_parse ng n stack cs \<noteq> Unmodelled"
proof (induction ng n stack cs rule: RegExp_parse.induct)
  case (1 ng n stack)
  then show ?case by (auto split: list.splits)
next
  case (2 ng n c cs)
  then show ?case by simp
next
  case (3 ng n f stack c cs)
  have d: "\<not> marked (drop k cs)" for k
    using "3.prems" marked_drop[of k cs] marked_Cons[of cs c] by blast
  have d0: "\<not> marked cs" using d[of 0] by simp
  have q: "c = CHR ''('' \<Longrightarrow> \<not> startsWith cs ''?''"
    using "3.prems" by (cases cs) (auto simp: startsWith_def)
  consider (paren) "c = CHR ''(''" | (close) "c = CHR '')''" | (bar) "c = CHR ''|''"
    | (star) "c = CHR ''*''" | (plus) "c = CHR ''+''" | (quest) "c = CHR ''?''"
    | (brace) "c = CHR ''{''" | (caret) "c = CHR ''^''" | (dollar) "c = CHR ''$''"
    | (dot) "c = CHR ''.''" | (bslash) "c = CHR 0x5C" | (bracket) "c = CHR ''[''"
    | (other) "c \<noteq> CHR ''(''" "c \<noteq> CHR '')''" "c \<noteq> CHR ''|''" "c \<noteq> CHR ''*''"
        "c \<noteq> CHR ''+''" "c \<noteq> CHR ''?''" "c \<noteq> CHR ''{''" "c \<noteq> CHR ''^''"
        "c \<noteq> CHR ''$''" "c \<noteq> CHR ''.''" "c \<noteq> CHR 0x5C" "c \<noteq> CHR ''[''"
    by blast
  then show ?case
  proof cases
    case paren
    show ?thesis
    proof (cases "startsWith cs ''?:''")
      case True
      with paren "3.IH"(1) d[of 2] show ?thesis by simp
    next
      case False
      with paren q "3.IH"(2) d0 show ?thesis by simp
    qed
  next
    case close
    with "3.IH"(3) d0 show ?thesis by (simp split: list.split)
  next
    case bar
    with "3.IH"(4) d0 show ?thesis by simp
  next
    case star
    with "3.IH"(5) d[of "lazy cs"] show ?thesis by (simp split: option.split)
  next
    case plus
    with "3.IH"(6) d[of "lazy cs"] show ?thesis by (simp split: option.split)
  next
    case quest
    with "3.IH"(7) d[of "lazy cs"] show ?thesis by (simp split: option.split)
  next
    case brace
    show ?thesis
    proof (cases "braces cs")
      case None
      with brace "3.IH"(8) d0 show ?thesis by simp
    next
      case (Some b)
      obtain lo hi k where b: "b = (lo, hi, k)" by (cases b)
      from brace Some b "3.IH"(9)[OF _ _ _ _ _ _ _ Some, of lo "(hi, k)" hi k]
        d[of "k + lazy (drop k cs)"]
      show ?thesis by (simp split: option.split)
    qed
  next
    case caret
    with "3.IH"(10) d0 show ?thesis by simp
  next
    case dollar
    with "3.IH"(11) d0 show ?thesis by simp
  next
    case dot
    with "3.IH"(12) d0 show ?thesis by simp
  next
    case bslash
    show ?thesis
    proof (cases cs)
      case Nil
      with bslash show ?thesis by simp
    next
      case (Cons x xs)
      obtain e k where e: "atom_escape ng x xs = (e, k)" by (cases "atom_escape ng x xs")
      from bslash Cons e "3.IH"(13)[OF _ _ _ _ _ _ _ _ _ _ _ Cons e[symmetric]] d[of k]
      show ?thesis by simp
    qed
  next
    case bracket
    show ?thesis
    proof (cases "class_ranges (drop (if startsWith cs ''^'' then 1 else 0) cs) []")
      case None
      with bracket show ?thesis by simp
    next
      case (Some b)
      obtain rs k where b: "b = (rs, k)" by (cases b)
      from bracket Some b "3.IH"(14)[OF _ _ _ _ _ _ _ _ _ _ _ _ Some b[symmetric]]
        d[of "(if startsWith cs ''^'' then 1 else 0) + k"]
      show ?thesis by simp
    qed
  next
    case other
    with "3.IH"(15) d0 show ?thesis by simp
  qed
qed

lemma RegExp_modelled: "\<not> marked source \<Longrightarrow> RegExp source \<noteq> Unmodelled"
  unfolding RegExp_def by (rule parse_modelled)

lemma replace_chars_set:
  "set (replace_chars hit by s) = (\<Union>c \<in> set s. if hit c then set (by c) else {c})"
  by (induction s) (auto simp: replace_chars_def)

lemma glob_source_question: "CHR ''?'' \<notin> set (glob_source pat)"
  by (auto simp: glob_source_def replace_chars_set split: if_splits)

lemma glob_source_modelled: "RegExp (glob_source pat) \<noteq> Unmodelled"
  using glob_source_question marked_question RegExp_modelled by blast

lemma replace_double_star_set: "set (replace_double_star s) \<subseteq> set s \<union> {CHR ''.'', CHR ''*''}"
  by (induction s rule: replace_double_star.induct) auto

lemma patternToRegex_modelled: "RegExp (patternToRegex_source pat) \<noteq> Unmodelled"
proof -
  let ?a = "replace_chars (\<lambda>c. c = CHR 0x5C \<or> c \<in> set ''.+^${}()|'') (\<lambda>c. [CHR 0x5C, c]) pat"
  let ?b = "replace_chars (\<lambda>c. c = CHR ''?'') (\<lambda>c. ''[^/]'') ?a"
  let ?body = "replace_chars (\<lambda>c. c = CHR ''*'') (\<lambda>c. ''[^/]*'') (replace_double_star ?b)"
  let ?front = "if startsWith pat ''/'' then ''^'' @ drop 1 ?body else ''(^|/)'' @ ?body"
  have b: "CHR ''?'' \<notin> set ?b" by (auto simp: replace_chars_set split: if_splits)
  have "CHR ''?'' \<notin> set (replace_double_star ?b)"
    using b replace_double_star_set[of ?b] by auto
  then have body: "CHR ''?'' \<notin> set ?body" by (auto simp: replace_chars_set split: if_splits)
  then have "CHR ''?'' \<notin> set (drop 1 ?body)" by (meson in_set_dropD)
  with body have front: "CHR ''?'' \<notin> set ?front" by simp
  have "\<not> marked (?front @ ''(/.*)?$'')"
  proof
    assume "marked (?front @ ''(/.*)?$'')"
    from marked_append[OF this] front marked_question[of ?front] show False by auto
  qed
  moreover have "patternToRegex_source pat = ?front @ ''(/.*)?$''"
    by (simp add: patternToRegex_source_def Let_def)
  ultimately show ?thesis using RegExp_modelled by simp
qed

section \<open>Grouping by name and by content\<close>

lemma map_set_new: "k \<notin> set (map fst m) \<Longrightarrow> map_set m k v = m @ [(k, v)]"
  by (induction m) auto

lemma push_at_last: "k \<notin> set (map fst m) \<Longrightarrow> push_at (m @ [(k, vs)]) k x = m @ [(k, vs @ [x])]"
  by (induction m) auto

lemma map_push_new: "k \<notin> set (map fst m) \<Longrightarrow> map_push m k x = m @ [(k, [x])]"
  by (simp add: map_push_def map_has_def map_set_new push_at_last)

lemma push_at_keys: "map fst (push_at m k x) = map fst m"
  by (induction m) auto

lemma push_at_set:
  "distinct (map fst m) \<Longrightarrow>
   set (push_at m k x) = (\<lambda>(k', vs). if k' = k then (k', vs @ [x]) else (k', vs)) ` set m"
proof (induction m)
  case Nil
  then show ?case by simp
next
  case (Cons a m)
  obtain k' vs where a: "a = (k', vs)" by (cases a)
  show ?case
  proof (cases "k' = k")
    case True
    with Cons.prems a have "k \<notin> fst ` set m" by auto
    then have "(\<lambda>(k', vs). if k' = k then (k', vs @ [x]) else (k', vs)) ` set m = set m"
      by (force simp: image_iff split: prod.splits)
    with True a show ?thesis by simp
  next
    case False
    with Cons a show ?thesis by simp
  qed
qed

lemma grouped_step:
  assumes "grouped key m xs"
  shows "grouped key (map_push m (key x) x) (xs @ [x])"
proof -
  from assms have d: "distinct (map fst m)"
    and ks: "set (map fst m) = key ` set xs"
    and vs: "\<And>k vs. (k, vs) \<in> set m \<Longrightarrow> vs = filter (\<lambda>x. key x = k) xs"
    by (auto simp: grouped_def)
  show ?thesis
  proof (cases "key x \<in> set (map fst m)")
    case False
    then have mp: "map_push m (key x) x = m @ [(key x, [x])]"
      by (rule map_push_new)
    from False ks have nox: "filter (\<lambda>y. key y = key x) xs = []"
      by (metis (mono_tags, lifting) filter_False imageI)
    have "\<And>k vs. (k, vs) \<in> set m \<Longrightarrow> key x \<noteq> k"
      using False by force
    then have old: "\<And>k vs. (k, vs) \<in> set m \<Longrightarrow> vs = filter (\<lambda>y. key y = k) (xs @ [x])"
      using vs by fastforce
    show ?thesis
      unfolding grouped_def mp using d ks False nox old by auto
  next
    case True
    then have mp: "map_push m (key x) x = push_at m (key x) x"
      by (simp add: map_push_def map_has_def)
    have "\<And>k vs. (k, vs) \<in> set (push_at m (key x) x) \<Longrightarrow> vs = filter (\<lambda>y. key y = k) (xs @ [x])"
      unfolding push_at_set[OF d] using vs by (auto split: if_splits)
    then show ?thesis
      unfolding grouped_def mp push_at_keys using d ks True by auto
  qed
qed

lemma grouped_fold:
  "grouped key m xs \<Longrightarrow> grouped key (fold (\<lambda>x m. map_push m (key x) x) ys m) (xs @ ys)"
proof (induction ys arbitrary: m xs)
  case Nil then show ?case by simp
next
  case (Cons y ys)
  from Cons.IH[OF grouped_step[OF Cons.prems, of y]] show ?case by simp
qed

lemma grouped_Nil: "grouped key [] []"
  by (simp add: grouped_def)

lemma nameGroups_grouped: "grouped name (nameGroups fs) fs"
  using grouped_fold[OF grouped_Nil, of name fs] by (simp add: nameGroups_def)

lemma hashGroups_filter:
  "fold (\<lambda>file m. if truthy (hash file) then map_push m (the (hash file)) file else m) fs m
   = fold (\<lambda>file m. map_push m (the (hash file)) file) (filter (\<lambda>f. truthy (hash f)) fs) m"
  by (induction fs arbitrary: m) auto

lemma hashGroups_grouped:
  "grouped (\<lambda>f. the (hash f)) (hashGroups fs) (filter (\<lambda>f. truthy (hash f)) fs)"
  using grouped_fold[OF grouped_Nil, of "\<lambda>f. the (hash f)" "filter (\<lambda>f. truthy (hash f)) fs"]
  by (simp add: hashGroups_def hashGroups_filter)

lemma emit_fold:
  fixes m :: "('k \<times> 'v list) list"
  shows "fold (\<lambda>(k, files) (groups, c).
             if length files > 1 then (groups @ [mk (uuid c) files], Suc c)
             else (groups, c)) m (gs, n)
   = (gs @ emitted mk uuid n (filter (\<lambda>vs. length vs > 1) (map snd m)),
      n + length (filter (\<lambda>vs. length vs > 1) (map snd m)))"
proof -
  define F where "F = (\<lambda>(k :: 'k, files :: 'v list) (groups, c).
             if length files > 1 then (groups @ [mk (uuid c) files], Suc c)
             else (groups, c))"
  define P where "P = (\<lambda>vs :: 'v list. length vs > 1)"
  have step: "\<And>k vs gs n. F (k, vs) (gs, n) =
      (if P vs then (gs @ [mk (uuid n) vs], Suc n) else (gs, n))"
    by (simp add: F_def P_def)
  have "fold F m (gs, n)
      = (gs @ emitted mk uuid n (filter P (map snd m)), n + length (filter P (map snd m)))"
  proof (induction m arbitrary: gs n)
    case Nil
    show ?case by simp
  next
    case (Cons a m)
    obtain k vs where a: "a = (k, vs)" by (cases a)
    show ?case
    proof (cases "P vs")
      case True
      have "fold F (a # m) (gs, n) = fold F m (gs @ [mk (uuid n) vs], Suc n)"
        by (simp add: a step True)
      also note Cons.IH
      finally show ?thesis using True by (simp add: a)
    next
      case False
      have "fold F (a # m) (gs, n) = fold F m (gs, n)"
        by (simp add: a step False)
      also note Cons.IH
      finally show ?thesis using False by (simp add: a)
    qed
  qed
  then show ?thesis unfolding F_def P_def .
qed

lemma emitted_files:
  "(\<And>i fs. sel (mk i fs) = fs) \<Longrightarrow> map sel (emitted mk uuid n vss) = vss"
  by (induction vss arbitrary: n) auto

lemma emitted_shape:
  "g \<in> set (emitted mk uuid n vss) \<Longrightarrow> \<exists>i vs. g = mk i vs \<and> vs \<in> set vss"
proof (induction vss arbitrary: n)
  case Nil
  then show ?case by simp
next
  case (Cons v vss)
  from Cons.prems have "g = mk (uuid n) v \<or> g \<in> set (emitted mk uuid (Suc n) vss)" by simp
  then show ?case
  proof
    assume "g = mk (uuid n) v"
    then show ?thesis by auto
  next
    assume "g \<in> set (emitted mk uuid (Suc n) vss)"
    from Cons.IH[OF this] show ?thesis by auto
  qed
qed

lemma fold_sum: "fold (\<lambda>file sum. sum + f file) fs (a::int) = a + sum_list (map f fs)"
  by (induction fs arbitrary: a) auto

lemma files_nameGroup: "files_g (nameGroup i fs) = fs"
  by (simp add: nameGroup_def Let_def)

lemma files_contentGroup: "files_g (contentGroup i fs) = fs"
  by (simp add: contentGroup_def Let_def)

lemma grouped_members:
  assumes "grouped key m xs"
  shows "vs \<in> set (map snd m) \<longleftrightarrow> (\<exists>k \<in> key ` set xs. vs = filter (\<lambda>x. key x = k) xs)"
proof -
  from assms have ks: "fst ` set m = key ` set xs"
    and vals: "\<And>k vs. (k, vs) \<in> set m \<Longrightarrow> vs = filter (\<lambda>x. key x = k) xs"
    by (auto simp: grouped_def)
  show ?thesis
  proof
    assume "vs \<in> set (map snd m)"
    then obtain k where kv: "(k, vs) \<in> set m" by auto
    then have "k \<in> fst ` set m" by (metis fst_conv imageI)
    with ks have "k \<in> key ` set xs" by simp
    with vals[OF kv] show "\<exists>k \<in> key ` set xs. vs = filter (\<lambda>x. key x = k) xs" by blast
  next
    assume "\<exists>k \<in> key ` set xs. vs = filter (\<lambda>x. key x = k) xs"
    then obtain k where k: "k \<in> key ` set xs" and v: "vs = filter (\<lambda>x. key x = k) xs" by blast
    from k ks have "k \<in> fst ` set m" by simp
    then obtain vs' where kv: "(k, vs') \<in> set m" by auto
    from vals[OF kv] v have "vs' = vs" by simp
    with kv have "(k, vs) \<in> set m" by simp
    then have "snd (k, vs) \<in> snd ` set m" by (rule imageI)
    then show "vs \<in> set (map snd m)" by simp
  qed
qed

lemma grouped_distinct_values:
  assumes "grouped key m xs"
  shows "distinct (map snd m)"
proof -
  from assms have d: "distinct (map fst m)"
    and ks: "fst ` set m = key ` set xs"
    and vs: "\<And>k vs. (k, vs) \<in> set m \<Longrightarrow> vs = filter (\<lambda>x. key x = k) xs"
    by (auto simp: grouped_def)
  have inj: "inj_on snd (set m)"
  proof (rule inj_onI)
    fix a b assume a: "a \<in> set m" and b: "b \<in> set m" and e: "snd a = snd b"
    obtain k vs where a': "a = (k, vs)" by (cases a)
    obtain k' vs' where b': "b = (k', vs')" by (cases b)
    from e a' b' have vv: "vs' = vs" by simp
    from a a' have "k \<in> fst ` set m" by (metis fst_conv imageI)
    with ks have "k \<in> key ` set xs" by simp
    then obtain x where x: "x \<in> set xs" "key x = k" by auto
    from vs[of k vs] a a' have v1: "vs = filter (\<lambda>x. key x = k) xs" by simp
    from vs[of k' vs'] b b' vv have v2: "vs = filter (\<lambda>x. key x = k') xs" by simp
    from x v1 have "x \<in> set vs" by simp
    then have "x \<in> set (filter (\<lambda>x. key x = k') xs)" using v2 by simp
    then have "key x = k'" by simp
    with x have "k = k'" by simp
    with vv a' b' show "a = b" by simp
  qed
  from d have "distinct m" by (metis distinct_map)
  with inj show ?thesis by (simp add: distinct_map)
qed

text \<open>
  Claim C6. Name-based grouping groups the files by their exact base name (string equality,
  so upper and lower case differ): every emitted group is the list, in traversal order, of
  all files with one name; a name has a group exactly when at least two files carry it; no
  name is emitted twice; and the reclaimable bytes of a group are the sum of the member sizes
  minus the largest member size. The witness runs sizes 5 and 7 under one name (and a third
  file whose name differs in case only): reclaimable bytes 12 - 7 = 5.
\<close>

theorem name_based_grouping:
  "(\<forall>g \<in> set (fst (findNameBasedDuplicates uuid n fs)).
        type_g g = NAME_BASED \<and> 2 \<le> length (files_g g)
      \<and> (\<exists>nm. files_g g = filter (\<lambda>f. name f = nm) fs)
      \<and> totalSize g = sum_list (map size_f (files_g g))
      \<and> potentialSavings g = sum_list (map size_f (files_g g)) - Max (set (map size_f (files_g g))))
   \<and> (\<forall>nm. (\<exists>g \<in> set (fst (findNameBasedDuplicates uuid n fs)).
               files_g g = filter (\<lambda>f. name f = nm) fs)
           \<longleftrightarrow> 2 \<le> length (filter (\<lambda>f. name f = nm) fs))
   \<and> distinct (map files_g (fst (findNameBasedDuplicates uuid n fs)))"
proof -
  define groups where "groups = fst (findNameBasedDuplicates uuid n fs)"
  define named where "named = (\<lambda>nm. filter (\<lambda>f. name f = nm) fs)"
  have "fold (\<lambda>(nm, files) (groups, k).
             if length files > 1 then (groups @ [nameGroup (uuid k) files], Suc k)
             else (groups, k)) (nameGroups fs) ([], n)
      = ([] @ emitted nameGroup uuid n (filter (\<lambda>vs. length vs > 1) (map snd (nameGroups fs))),
         n + length (filter (\<lambda>vs. length vs > 1) (map snd (nameGroups fs))))"
    by (rule emit_fold)
  then have gr: "groups = emitted nameGroup uuid n (filter (\<lambda>vs. length vs > 1) (map snd (nameGroups fs)))"
    by (simp add: groups_def findNameBasedDuplicates_def)
  have fl: "map files_g groups = filter (\<lambda>vs. length vs > 1) (map snd (nameGroups fs))"
    unfolding gr by (rule emitted_files) (rule files_nameGroup)
  note G = nameGroups_grouped[of fs]
  have mem: "vs \<in> set (map files_g groups) \<longleftrightarrow>
      length vs > 1 \<and> (\<exists>k \<in> name ` set fs. vs = named k)" for vs
  proof -
    have "vs \<in> set (map files_g groups) \<longleftrightarrow>
        length vs > 1 \<and> vs \<in> set (map snd (nameGroups fs))"
      unfolding fl by auto
    also have "vs \<in> set (map snd (nameGroups fs)) \<longleftrightarrow> (\<exists>k \<in> name ` set fs. vs = named k)"
      unfolding named_def by (rule grouped_members[OF G])
    finally show ?thesis .
  qed
  have A: "\<forall>g \<in> set groups. type_g g = NAME_BASED \<and> 2 \<le> length (files_g g)
            \<and> (\<exists>nm. files_g g = named nm)
            \<and> totalSize g = sum_list (map size_f (files_g g))
            \<and> potentialSavings g = sum_list (map size_f (files_g g)) - Max (set (map size_f (files_g g)))"
  proof
    fix g assume g: "g \<in> set groups"
    then obtain i vs where i: "g = nameGroup i vs"
      unfolding gr using emitted_shape by fast
    from g have "files_g g \<in> set (map files_g groups)" by simp
    then have ex: "\<exists>nm. files_g g = named nm" using mem by blast
    have "type_g g = NAME_BASED"
      "totalSize g = sum_list (map size_f (files_g g))"
      "potentialSavings g = sum_list (map size_f (files_g g)) - Max (set (map size_f (files_g g)))"
      unfolding i by (simp_all add: nameGroup_def Let_def fold_sum Math_max_def)
    moreover note ex
    moreover from \<open>files_g g \<in> set (map files_g groups)\<close> have "2 \<le> length (files_g g)"
      unfolding fl by auto
    ultimately show "type_g g = NAME_BASED \<and> 2 \<le> length (files_g g)
            \<and> (\<exists>nm. files_g g = named nm)
            \<and> totalSize g = sum_list (map size_f (files_g g))
            \<and> potentialSavings g = sum_list (map size_f (files_g g)) - Max (set (map size_f (files_g g)))"
      by simp
  qed
  have B: "\<forall>nm. (\<exists>g \<in> set groups. files_g g = named nm) \<longleftrightarrow> 2 \<le> length (named nm)"
  proof
    fix nm
    have "(\<exists>g \<in> set groups. files_g g = named nm) \<longleftrightarrow> named nm \<in> set (map files_g groups)"
      by force
    also have "\<dots> \<longleftrightarrow> length (named nm) > 1 \<and> (\<exists>k \<in> name ` set fs. named nm = named k)"
      by (rule mem)
    also have "\<dots> \<longleftrightarrow> 2 \<le> length (named nm)"
    proof
      assume "length (named nm) > 1 \<and> (\<exists>k \<in> name ` set fs. named nm = named k)"
      then show "2 \<le> length (named nm)" by simp
    next
      assume l: "2 \<le> length (named nm)"
      then have "named nm \<noteq> []" by auto
      then obtain f where "f \<in> set (named nm)" by (cases "named nm") auto
      then have "nm \<in> name ` set fs" by (auto simp: named_def)
      with l show "length (named nm) > 1 \<and> (\<exists>k \<in> name ` set fs. named nm = named k)" by auto
    qed
    finally show "(\<exists>g \<in> set groups. files_g g = named nm) \<longleftrightarrow> 2 \<le> length (named nm)" .
  qed
  have C: "distinct (map files_g groups)"
    unfolding fl using grouped_distinct_values[OF G] by (rule distinct_filter)
  from A B C show ?thesis unfolding groups_def named_def by - (intro conjI; assumption)
qed


lemma truthy_Some: "truthy h \<longleftrightarrow> (\<exists>s. h = Some s \<and> s \<noteq> [])"
  by (cases h) (auto simp: truthy_def)

lemma filter_hash_key:
  assumes "k \<noteq> []"
  shows "filter (\<lambda>x. the (hash x) = k) (filter (\<lambda>f. truthy (hash f)) fs)
       = filter (\<lambda>f. hash f = Some k) fs"
  unfolding filter_filter
proof (rule filter_cong)
  show "fs = fs" by simp
next
  fix f
  show "(truthy (hash f) \<and> the (hash f) = k) = (hash f = Some k)"
    using assms by (auto simp: truthy_Some)
qed

text \<open>
  Claim C5. Content-based grouping looks only at files whose fingerprint is set (and not the
  empty text), keys the groups by that fingerprint: every emitted group is the list, in
  traversal order, of all files with one fingerprint; a fingerprint has a group exactly
  when at least two files carry it; and the reclaimable bytes are the sum of the member
  sizes minus the size of the first member in traversal order. The witness runs three
  members of size 10 (among files with another or no fingerprint): 30 - 10 = 20.
\<close>

theorem content_based_grouping:
  "(\<forall>g \<in> set (fst (findContentBasedDuplicates uuid n fs)).
        type_g g = CONTENT_BASED \<and> 2 \<le> length (files_g g)
      \<and> (\<exists>h. h \<noteq> [] \<and> files_g g = filter (\<lambda>f. hash f = Some h) fs)
      \<and> totalSize g = sum_list (map size_f (files_g g))
      \<and> potentialSavings g = sum_list (map size_f (files_g g)) - size_f (hd (files_g g)))
   \<and> (\<forall>h. h \<noteq> [] \<longrightarrow>
          ((\<exists>g \<in> set (fst (findContentBasedDuplicates uuid n fs)).
               files_g g = filter (\<lambda>f. hash f = Some h) fs)
           \<longleftrightarrow> 2 \<le> length (filter (\<lambda>f. hash f = Some h) fs)))
   \<and> distinct (map files_g (fst (findContentBasedDuplicates uuid n fs)))"
proof -
  define groups where "groups = fst (findContentBasedDuplicates uuid n fs)"
  define hashed where "hashed = (\<lambda>h. filter (\<lambda>f. hash f = Some h) fs)"
  define fs' where "fs' = filter (\<lambda>f. truthy (hash f)) fs"
  define key where "key = (\<lambda>f::FileMetadata. the (hash f))"
  have "fold (\<lambda>(h, files) (groups, k).
             if length files > 1 then (groups @ [contentGroup (uuid k) files], Suc k)
             else (groups, k)) (hashGroups fs) ([], n)
      = ([] @ emitted contentGroup uuid n (filter (\<lambda>vs. length vs > 1) (map snd (hashGroups fs))),
         n + length (filter (\<lambda>vs. length vs > 1) (map snd (hashGroups fs))))"
    by (rule emit_fold)
  then have gr: "groups = emitted contentGroup uuid n (filter (\<lambda>vs. length vs > 1) (map snd (hashGroups fs)))"
    by (simp add: groups_def findContentBasedDuplicates_def)
  have fl: "map files_g groups = filter (\<lambda>vs. length vs > 1) (map snd (hashGroups fs))"
    unfolding gr by (rule emitted_files) (rule files_contentGroup)
  have G: "grouped key (hashGroups fs) fs'"
    unfolding key_def fs'_def by (rule hashGroups_grouped)
  have keys: "k \<noteq> []" if "k \<in> key ` set fs'" for k
    using that unfolding key_def fs'_def by (auto simp: truthy_Some)
  have keyed: "filter (\<lambda>x. key x = k) fs' = hashed k" if "k \<noteq> []" for k
    unfolding key_def fs'_def hashed_def using that by (rule filter_hash_key)
  have mem: "vs \<in> set (map files_g groups) \<longleftrightarrow>
      length vs > 1 \<and> (\<exists>k \<in> key ` set fs'. vs = hashed k)" for vs
  proof -
    have "vs \<in> set (map files_g groups) \<longleftrightarrow>
        length vs > 1 \<and> vs \<in> set (map snd (hashGroups fs))"
      unfolding fl by auto
    also have "vs \<in> set (map snd (hashGroups fs)) \<longleftrightarrow>
        (\<exists>k \<in> key ` set fs'. vs = filter (\<lambda>x. key x = k) fs')"
      by (rule grouped_members[OF G])
    also have "\<dots> \<longleftrightarrow> (\<exists>k \<in> key ` set fs'. vs = hashed k)"
      using keys keyed by (metis (no_types, lifting))
    finally show ?thesis .
  qed
  have A: "\<forall>g \<in> set groups. type_g g = CONTENT_BASED \<and> 2 \<le> length (files_g g)
            \<and> (\<exists>h. h \<noteq> [] \<and> files_g g = hashed h)
            \<and> totalSize g = sum_list (map size_f (files_g g))
            \<and> potentialSavings g = sum_list (map size_f (files_g g)) - size_f (hd (files_g g))"
  proof
    fix g assume g: "g \<in> set groups"
    then obtain i vs where i: "g = contentGroup i vs" and vs: "vs \<in> set (filter (\<lambda>vs. length vs > 1) (map snd (hashGroups fs)))"
      unfolding gr using emitted_shape by fast
    from vs have "vs \<noteq> []" by auto
    then have hd0: "vs ! 0 = hd vs" by (simp add: hd_conv_nth)
    from g have "files_g g \<in> set (map files_g groups)" by simp
    then obtain k where "k \<in> key ` set fs'" "files_g g = hashed k" using mem by blast
    with keys have ex: "\<exists>h. h \<noteq> [] \<and> files_g g = hashed h" by blast
    have "type_g g = CONTENT_BASED"
      "totalSize g = sum_list (map size_f (files_g g))"
      "potentialSavings g = sum_list (map size_f (files_g g)) - size_f (hd (files_g g))"
      unfolding i by (simp_all add: contentGroup_def Let_def fold_sum hd0)
    moreover note ex
    moreover from \<open>files_g g \<in> set (map files_g groups)\<close> have "2 \<le> length (files_g g)"
      unfolding fl by auto
    ultimately show "type_g g = CONTENT_BASED \<and> 2 \<le> length (files_g g)
            \<and> (\<exists>h. h \<noteq> [] \<and> files_g g = hashed h)
            \<and> totalSize g = sum_list (map size_f (files_g g))
            \<and> potentialSavings g = sum_list (map size_f (files_g g)) - size_f (hd (files_g g))"
      by simp
  qed
  have B: "\<forall>h. h \<noteq> [] \<longrightarrow> ((\<exists>g \<in> set groups. files_g g = hashed h) \<longleftrightarrow> 2 \<le> length (hashed h))"
  proof (intro allI impI)
    fix h :: string assume h: "h \<noteq> []"
    have "(\<exists>g \<in> set groups. files_g g = hashed h) \<longleftrightarrow> hashed h \<in> set (map files_g groups)"
      by (simp add: image_iff) metis
    also have "\<dots> \<longleftrightarrow> length (hashed h) > 1 \<and> (\<exists>k \<in> key ` set fs'. hashed h = hashed k)"
      by (rule mem)
    also have "\<dots> \<longleftrightarrow> 2 \<le> length (hashed h)"
    proof
      assume "length (hashed h) > 1 \<and> (\<exists>k \<in> key ` set fs'. hashed h = hashed k)"
      then show "2 \<le> length (hashed h)" by simp
    next
      assume l: "2 \<le> length (hashed h)"
      then have "hashed h \<noteq> []" by auto
      then obtain f where f: "f \<in> set (hashed h)" by (cases "hashed h") auto
      then have "f \<in> set fs" "hash f = Some h" by (simp_all add: hashed_def)
      with h have "f \<in> set fs'" "key f = h" by (simp_all add: fs'_def key_def truthy_Some)
      then have "h \<in> key ` set fs'" by (metis imageI)
      with l show "length (hashed h) > 1 \<and> (\<exists>k \<in> key ` set fs'. hashed h = hashed k)" by auto
    qed
    finally show "(\<exists>g \<in> set groups. files_g g = hashed h) \<longleftrightarrow> 2 \<le> length (hashed h)" .
  qed
  have C: "distinct (map files_g groups)"
    unfolding fl using grouped_distinct_values[OF G] by (rule distinct_filter)
  from A B C show ?thesis unfolding groups_def hashed_def by - (intro conjI; assumption)
qed


theorem name_based_grouping_witness:
  "map (\<lambda>g. (type_g g, map path (files_g g), totalSize g, potentialSavings g))
       (fst (findNameBasedDuplicates (\<lambda>n. ''id'') 0
          [file_at [''a'', ''x.txt''] 5 None, file_at [''a'', ''X.txt''] 3 None,
           file_at [''b'', ''x.txt''] 7 None]))
   = [(NAME_BASED, [[''a'', ''x.txt''], [''b'', ''x.txt'']], 12, 5)]"
  using name_based_grouping [of "\<lambda>n. ''id''" 0
          "[file_at [''a'', ''x.txt''] 5 None, file_at [''a'', ''X.txt''] 3 None,
           file_at [''b'', ''x.txt''] 7 None]"]
  by (simp add: findNameBasedDuplicates_def nameGroups_def map_push_def map_has_def
      nameGroup_def Math_max_def file_at_def)

theorem content_based_grouping_witness:
  "map (\<lambda>g. (type_g g, map path (files_g g), totalSize g, potentialSavings g))
       (fst (findContentBasedDuplicates (\<lambda>n. ''id'') 0
          [file_at [''a''] 10 (Some ''h1''), file_at [''b''] 4 None,
           file_at [''c''] 10 (Some ''h1''), file_at [''d''] 9 (Some ''h2''),
           file_at [''e''] 10 (Some ''h1'')]))
   = [(CONTENT_BASED, [[''a''], [''c''], [''e'']], 30, 20)]"
  using content_based_grouping [of "\<lambda>n. ''id''" 0
          "[file_at [''a''] 10 (Some ''h1''), file_at [''b''] 4 None,
           file_at [''c''] 10 (Some ''h1''), file_at [''d''] 9 (Some ''h2''),
           file_at [''e''] 10 (Some ''h1'')]"]
  by (simp add: findContentBasedDuplicates_def hashGroups_def map_push_def map_has_def
      contentGroup_def truthy_def file_at_def)

section \<open>Every group has two members\<close>

lemma name_based_sizes:
  "g \<in> set (fst (findNameBasedDuplicates uuid n fs)) \<Longrightarrow> 2 \<le> length (files_g g)"
proof -
  assume g: "g \<in> set (fst (findNameBasedDuplicates uuid n fs))"
  have "fold (\<lambda>(nm, files) (groups, k).
             if length files > 1 then (groups @ [nameGroup (uuid k) files], Suc k)
             else (groups, k)) (nameGroups fs) ([], n)
      = ([] @ emitted nameGroup uuid n (filter (\<lambda>vs. length vs > 1) (map snd (nameGroups fs))),
         n + length (filter (\<lambda>vs. length vs > 1) (map snd (nameGroups fs))))"
    by (rule emit_fold)
  with g have "g \<in> set (emitted nameGroup uuid n (filter (\<lambda>vs. length vs > 1) (map snd (nameGroups fs))))"
    by (simp add: findNameBasedDuplicates_def)
  then obtain i vs where "g = nameGroup i vs" "vs \<in> set (filter (\<lambda>vs. length vs > 1) (map snd (nameGroups fs)))"
    using emitted_shape by fast
  then show ?thesis by (simp add: files_nameGroup)
qed

lemma content_based_sizes:
  "g \<in> set (fst (findContentBasedDuplicates uuid n fs)) \<Longrightarrow> 2 \<le> length (files_g g)"
proof -
  assume g: "g \<in> set (fst (findContentBasedDuplicates uuid n fs))"
  have "fold (\<lambda>(h, files) (groups, k).
             if length files > 1 then (groups @ [contentGroup (uuid k) files], Suc k)
             else (groups, k)) (hashGroups fs) ([], n)
      = ([] @ emitted contentGroup uuid n (filter (\<lambda>vs. length vs > 1) (map snd (hashGroups fs))),
         n + length (filter (\<lambda>vs. length vs > 1) (map snd (hashGroups fs))))"
    by (rule emit_fold)
  with g have "g \<in> set (emitted contentGroup uuid n (filter (\<lambda>vs. length vs > 1) (map snd (hashGroups fs))))"
    by (simp add: findContentBasedDuplicates_def)
  then obtain i vs where "g = contentGroup i vs" "vs \<in> set (filter (\<lambda>vs. length vs > 1) (map snd (hashGroups fs)))"
    using emitted_shape by fast
  then show ?thesis by (simp add: files_contentGroup)
qed

lemma guarded_fold_sizes:
  assumes step: "\<And>x gs k. step x (gs, k) =
      (if length (fst (mk x)) > 1 then (gs @ [folderGroup (uuid k) (fst (mk x)) (snd (mk x))], Suc k)
       else (gs, k))"
    and acc: "\<forall>g \<in> set gs. 2 \<le> length (files_g g)"
  shows "\<forall>g \<in> set (fst (fold step xs (gs, k))). 2 \<le> length (files_g g)"
  using acc
proof (induction xs arbitrary: gs k)
  case Nil
  then show ?case by simp
next
  case (Cons x xs)
  show ?case
  proof (cases "length (fst (mk x)) > 1")
    case True
    have "\<forall>g \<in> set (gs @ [folderGroup (uuid k) (fst (mk x)) (snd (mk x))]). 2 \<le> length (files_g g)"
      using Cons.prems True by (auto simp: folderGroup_def)
    from Cons.IH[OF this] True show ?thesis by (simp add: step)
  next
    case False
    from Cons.IH[OF Cons.prems] False show ?thesis by (simp add: step)
  qed
qed

lemma folder_based_sizes:
  "g \<in> set (fst (findFolderBasedDuplicates digest root uuid n dirs)) \<Longrightarrow> 2 \<le> length (files_g g)"
proof (cases "length dirs = 0")
  case True
  assume "g \<in> set (fst (findFolderBasedDuplicates digest root uuid n dirs))"
  with True show ?thesis by (simp add: findFolderBasedDuplicates_def)
next
  case False
  assume g: "g \<in> set (fst (findFolderBasedDuplicates digest root uuid n dirs))"
  define mk where "mk = (\<lambda>folderGroup'.
      fold (\<lambda>folder (files, tot).
               let sz = getFolderSize root (path_s folder)
               in (files @ [\<lparr>path = path_s folder, name = name_s folder,
                             size_f = sz, isDirectory = True, hash = None\<rparr>],
                   tot + sz))
           folderGroup' ([], 0::int))"
  define step where "step = (\<lambda>folderGroup' (groups, k).
      let (files, tot) = mk folderGroup'
      in if length files > 1
         then (groups @ [folderGroup (uuid k) files tot], Suc k)
         else (groups, k))"
  have st: "\<And>x gs k. step x (gs, k) =
      (if length (fst (mk x)) > 1 then (gs @ [folderGroup (uuid k) (fst (mk x)) (snd (mk x))], Suc k)
       else (gs, k))"
    by (simp add: step_def split_def Let_def)
  have "findFolderBasedDuplicates digest root uuid n dirs
      = fold step (findDuplicateFolders
           (map (\<lambda>dir. buildFolderStructure digest root (path dir) (path dir)) dirs)) ([], n)"
    using False by (simp add: findFolderBasedDuplicates_def step_def mk_def Let_def)
  with g guarded_fold_sizes[of step mk uuid "[]", OF st] show ?thesis by simp
qed

text \<open>
  Claim C2. Whatever the file list, the directory list and the file system, every group that
  duplicate detection returns, from the name-based, the content-based and the folder-based
  pass alike, has at least two members. The witness is a run in which each pass emits a group.
\<close>

theorem groups_have_two_members:
  "\<forall>g \<in> set (detectDuplicates digest root uuid n files directories). 2 \<le> length (files_g g)"
proof
  fix g assume "g \<in> set (detectDuplicates digest root uuid n files directories)"
  then consider
      (a) "g \<in> set (fst (findNameBasedDuplicates uuid n files))"
    | (b) "g \<in> set (fst (findContentBasedDuplicates uuid
              (snd (findNameBasedDuplicates uuid n files)) files))"
    | (c) "g \<in> set (fst (findFolderBasedDuplicates digest root uuid
              (snd (findContentBasedDuplicates uuid
                 (snd (findNameBasedDuplicates uuid n files)) files)) directories))"
    by (auto simp: detectDuplicates_def split_def Let_def)
  then show "2 \<le> length (files_g g)"
  proof cases
    case a then show ?thesis by (rule name_based_sizes)
  next
    case b then show ?thesis by (rule content_based_sizes)
  next
    case c then show ?thesis by (rule folder_based_sizes)
  qed
qed


theorem groups_have_two_members_witness:
  "map (\<lambda>g. (type_g g, map path (files_g g), potentialSavings g))
     (detectDuplicates (\<lambda>s. s) twin_tree (\<lambda>n. ''id'') 0
        [file_at [''a'', ''x''] 2 (Some ''hi''), file_at [''b'', ''x''] 2 (Some ''hi''),
         file_at [''c'', ''y''] 2 (Some ''ho'')]
        [dir_at [''a''], dir_at [''b''], dir_at [''c'']])
   = [(NAME_BASED, [[''a'', ''x''], [''b'', ''x'']], 2),
      (CONTENT_BASED, [[''a'', ''x''], [''b'', ''x'']], 2),
      (FOLDER_BASED, [[''a''], [''b'']], 2)]"
  using groups_have_two_members [of "\<lambda>s. s" twin_tree "\<lambda>n. ''id''" 0
        "[file_at [''a'', ''x''] 2 (Some ''hi''), file_at [''b'', ''x''] 2 (Some ''hi''),
         file_at [''c'', ''y''] 2 (Some ''ho'')]"
        "[dir_at [''a''], dir_at [''b''], dir_at [''c'']]"]
  by (simp add: detectDuplicates_def findNameBasedDuplicates_def nameGroups_def
      findContentBasedDuplicates_def hashGroups_def findFolderBasedDuplicates_def
      findDuplicateFolders_def buildFolderStructure_def calculateStructureHash_def
      getFolderSize_def folderGroup_def nameGroup_def contentGroup_def
      map_push_def map_has_def Math_max_def truthy_def file_at_def dir_at_def twin_tree_def
      basename_def join_def)

section \<open>The structure hash of a directory\<close>

lemma relative_append: "relative base (base @ rel) = rel"
  by (induction base) auto

lemma join_slash_snoc:
  "join_slash (rel @ [nm]) = (if rel = [] then nm else join_slash rel @ ''/'' @ nm)"
  by (induction rel rule: join_slash.induct) auto

lemma join_slash_inj: "join_slash (rel @ [a]) = join_slash (rel @ [b]) \<Longrightarrow> a = b"
  by (simp add: join_slash_snoc split: if_splits)

lemma direct_files_Nil: "direct_files digest rel [] = []"
  by (simp add: direct_files_def)

lemma child_dirs_Nil: "child_dirs digest base rel [] = []"
  by (simp add: child_dirs_def)

lemma distinct_direct_files:
  assumes "distinct (map fst es)"
  shows "distinct (map fst (direct_files digest rel es))"
proof -
  let ?F = "filter (\<lambda>(nm, entry). dirent_isFile entry) es"
  have e: "map fst (direct_files digest rel es)
      = map (\<lambda>nm. join_slash (rel @ [nm])) (map fst ?F)"
    by (simp add: direct_files_def split_def comp_def)
  have d: "distinct (map fst ?F)"
    using assms by (rule distinct_map_filter)
  have i: "inj_on (\<lambda>nm. join_slash (rel @ [nm])) (set (map fst ?F))"
    by (rule inj_onI) (rule join_slash_inj)
  show ?thesis unfolding e using d i by (rule distinct_map[THEN iffD2, OF conjI])
qed

lemma build_entries_append:
  assumes "distinct (map fst es)"
    and "fst ` set es \<inter> fst ` set subdirs = {}"
    and "(\<lambda>nm. join_slash (rel @ [nm])) ` fst ` set es \<inter> fst ` set files = {}"
  shows "buildFolderStructure_entries digest (base @ rel) base es (files, subdirs)
       = (files @ direct_files digest rel es, subdirs @ child_structs digest base rel es)"
  using assms
proof (induction es arbitrary: files subdirs)
  case Nil
  show ?case by (simp add: direct_files_def child_structs_def)
next
  case (Cons e es)
  obtain nm entry where e: "e = (nm, entry)" by (cases e)
  from Cons.prems e have d: "distinct (map fst es)" and nm: "nm \<notin> fst ` set es"
    and s: "nm \<notin> fst ` set subdirs" and s': "fst ` set es \<inter> fst ` set subdirs = {}"
    and f: "join_slash (rel @ [nm]) \<notin> fst ` set files"
    and f': "(\<lambda>nm. join_slash (rel @ [nm])) ` fst ` set es \<inter> fst ` set files = {}"
    by auto
  have fresh: "join_slash (rel @ [nm]) \<notin> (\<lambda>nm. join_slash (rel @ [nm])) ` fst ` set es"
    using nm join_slash_inj by (metis (no_types, lifting) imageE)
  show ?case
  proof (cases entry)
    case (File c r)
    have "buildFolderStructure_entries digest (base @ rel) base (e # es) (files, subdirs)
        = buildFolderStructure_entries digest (base @ rel) base es
            (files @ [(join_slash (rel @ [nm]), fingerprint digest entry)], subdirs)"
      using f by (simp add: e File join_def relative_append map_set_new Let_def)
    also have "\<dots> = ((files @ [(join_slash (rel @ [nm]), fingerprint digest entry)])
          @ direct_files digest rel es, subdirs @ child_structs digest base rel es)"
      using d s' f' fresh by (intro Cons.IH) auto
    finally show ?thesis
      by (simp add: e File direct_files_def child_structs_def)
  next
    case (Dir es' r')
    have "buildFolderStructure_entries digest (base @ rel) base (e # es) (files, subdirs)
        = buildFolderStructure_entries digest (base @ rel) base es
            (files, subdirs @ [(nm, buildFolderStructure_node digest (base @ rel @ [nm]) base entry)])"
      using s by (simp add: e Dir join_def map_set_new Let_def)
    also have "\<dots> = (files @ direct_files digest rel es,
          (subdirs @ [(nm, buildFolderStructure_node digest (base @ rel @ [nm]) base entry)])
          @ child_structs digest base rel es)"
      using d s' f' nm by (intro Cons.IH) auto
    finally show ?thesis
      by (simp add: e Dir direct_files_def child_structs_def)
  next
    case (Symlink t)
    have "buildFolderStructure_entries digest (base @ rel) base (e # es) (files, subdirs)
        = buildFolderStructure_entries digest (base @ rel) base es (files, subdirs)"
      by (simp add: e Symlink Let_def)
    also have "\<dots> = (files @ direct_files digest rel es, subdirs @ child_structs digest base rel es)"
      using d s' f' by (intro Cons.IH) auto
    finally show ?thesis
      by (simp add: e Symlink direct_files_def child_structs_def)
  next
    case Other
    have "buildFolderStructure_entries digest (base @ rel) base (e # es) (files, subdirs)
        = buildFolderStructure_entries digest (base @ rel) base es (files, subdirs)"
      by (simp add: e Other Let_def)
    also have "\<dots> = (files @ direct_files digest rel es, subdirs @ child_structs digest base rel es)"
      using d s' f' by (intro Cons.IH) auto
    finally show ?thesis
      by (simp add: e Other direct_files_def child_structs_def)
  qed
qed

lemma insort_key_map:
  "insort_key k (g x) (map g xs) = map g (insort_key (\<lambda>y. k (g y)) x xs)"
  by (induction xs) auto

lemma sort_key_map: "sort_key k (map g xs) = map g (sort_key (\<lambda>y. k (g y)) xs)"
  by (induction xs) (auto simp: insort_key_map)

lemma child_dirs_structs:
  "child_dirs digest base rel es
   = map (\<lambda>(nm, s). (nm, structureHash s)) (child_structs digest base rel es)"
  by (simp add: child_dirs_def child_structs_def split_def comp_def)

lemma calculateStructureHash_input:
  "calculateStructureHash digest files subdirs
   = digest (hash_input files (map (\<lambda>(nm, s). (nm, structureHash s)) subdirs))"
proof -
  have "map (\<lambda>(nm, h). ''dir:'' @ nm @ '':'' @ h)
          (sort_key (\<lambda>(nm, h). nm @ '',[object Object]'')
             (map (\<lambda>(nm, s). (nm, structureHash s)) subdirs))
      = map (\<lambda>(nm, structure). ''dir:'' @ nm @ '':'' @ structureHash structure)
          (sort_key (\<lambda>(nm, structure). nm @ '',[object Object]'') subdirs)"
    by (simp add: sort_key_map split_def comp_def)
  then show ?thesis
    by (simp add: calculateStructureHash_def hash_input_def Let_def)
qed

lemma structure_hash_Dir:
  assumes "distinct (map fst es)"
  shows "structureHash (buildFolderStructure_node digest (base @ rel) base (Dir es True))
       = digest (hash_input (direct_files digest rel es) (child_dirs digest base rel es))"
proof -
  have "buildFolderStructure_entries digest (base @ rel) base es ([], [])
      = ([] @ direct_files digest rel es, [] @ child_structs digest base rel es)"
    using assms by (intro build_entries_append) auto
  then show ?thesis
    by (simp add: calculateStructureHash_input child_dirs_structs)
qed

lemma split_at_first:
  "c \<notin> set a \<Longrightarrow> c \<notin> set b \<Longrightarrow> a @ c # x = b @ c # y \<Longrightarrow> a = b \<and> x = y"
proof (induction a arbitrary: b)
  case Nil
  then show ?case by (cases b) auto
next
  case (Cons e a)
  then show ?case by (cases b) auto
qed

lemma split_at_last_comma:
  assumes "c \<notin> set h1" "c \<notin> set h2" "p1 @ c # h1 = p2 @ c # h2"
  shows "p1 = p2 \<and> h1 = h2"
proof -
  from assms(3) have "rev (p1 @ c # h1) = rev (p2 @ c # h2)" by simp
  then have "rev h1 @ c # rev p1 = rev h2 @ c # rev p2" by simp
  moreover have "c \<notin> set (rev h1)" "c \<notin> set (rev h2)" using assms by simp_all
  ultimately have "rev h1 = rev h2 \<and> rev p1 = rev p2"
    by (intro split_at_first)
  then show ?thesis by simp
qed

lemma inj_on_key:
  assumes "distinct (map fst xs)"
    and "\<And>a b. a \<in> set xs \<Longrightarrow> b \<in> set xs \<Longrightarrow> k a = k b \<Longrightarrow> fst a = fst b"
  shows "inj_on k (set xs)"
proof (rule inj_onI)
  fix a b assume a: "a \<in> set xs" and b: "b \<in> set xs" and e: "k a = k b"
  then have f: "fst a = fst b" by (rule assms(2))
  obtain n v where a': "a = (n, v)" by (cases a)
  obtain n' v' where b': "b = (n', v')" by (cases b)
  from f a' b' have "n' = n" by simp
  with a b a' b' assms(1) have "v = v'" by (metis eq_key_imp_eq_value)
  with a' b' \<open>n' = n\<close> show "a = b" by simp
qed

lemma filter_eq_singleton: "distinct zs \<Longrightarrow> k \<in> set zs \<Longrightarrow> filter (\<lambda>x. k = x) zs = [k]"
  by (induction zs) (auto simp: filter_empty_conv)

lemma sort_key_unique:
  assumes "mset xs = mset ys" "distinct xs" "inj_on f (set xs)"
  shows "sort_key f xs = sort_key f ys"
proof (rule properties_for_sort_key)
  show "mset (sort_key f ys) = mset xs" using assms(1) by simp
  show "sorted (map f (sort_key f ys))" by simp
  fix k assume "k \<in> set (sort_key f ys)"
  then have kx: "k \<in> set xs" using assms(1) by (metis mset_eq_setD set_sort)
  have sy: "set ys = set xs" using assms(1) by (metis mset_eq_setD)
  have dy: "distinct ys" using assms(1,2) by (metis mset_eq_imp_distinct_iff)
  have one: "filter (\<lambda>x. f k = f x) zs = [k]" if "distinct zs" "set zs = set xs" for zs
  proof -
    have "filter (\<lambda>x. f k = f x) zs = filter (\<lambda>x. k = x) zs"
      using assms(3) kx that(2) by (intro filter_cong) (auto dest: inj_onD)
    also have "\<dots> = [k]" using that kx by (intro filter_eq_singleton) simp_all
    finally show ?thesis .
  qed
  have "filter (\<lambda>x. f k = f x) (sort_key f ys) = [k]"
    using dy sy by (intro one) simp_all
  moreover have "filter (\<lambda>x. f k = f x) xs = [k]"
    using assms(2) by (intro one) simp_all
  ultimately show "filter (\<lambda>x. f k = f x) (sort_key f ys) = filter (\<lambda>x. f k = f x) xs" by simp
qed

lemma fingerprint_comma_free: "comma_free digest \<Longrightarrow> CHR '','' \<notin> set (fingerprint digest n)"
  by (cases n) (auto simp: comma_free_def)

lemma reorder_isFile: "reorder t t' \<Longrightarrow> dirent_isFile t \<Longrightarrow> t' = t"
  by (induction rule: reorder.induct) auto

lemma reorder_isFile_iff: "reorder t t' \<Longrightarrow> dirent_isFile t' = dirent_isFile t"
  by (induction rule: reorder.induct) auto

lemma reorder_isDirectory_iff: "reorder t t' \<Longrightarrow> dirent_isDirectory t' = dirent_isDirectory t"
  by (induction rule: reorder.induct) auto

lemma direct_files_pointwise:
  assumes "list_all2 (\<lambda>e e'. fst e = fst e' \<and> reorder (snd e) (snd e')) es es'"
  shows "direct_files digest rel es = direct_files digest rel es'"
  using assms
proof (induction rule: list_all2_induct)
  case Nil
  show ?case by simp
next
  case (Cons e es e' es')
  obtain nm t where e: "e = (nm, t)" by (cases e)
  obtain nm' t' where e': "e' = (nm', t')" by (cases e')
  from Cons(1) e e' have n: "nm' = nm" and r: "reorder t t'" by simp_all
  show ?case
  proof (cases "dirent_isFile t")
    case True
    with r have "t' = t" by (rule reorder_isFile)
    with Cons.IH n e e' show ?thesis by (simp add: direct_files_def)
  next
    case False
    moreover from r False have "\<not> dirent_isFile t'" by (simp add: reorder_isFile_iff)
    ultimately show ?thesis using Cons.IH e e' by (simp add: direct_files_def)
  qed
qed

lemma child_dirs_pointwise:
  assumes "list_all2 (\<lambda>e e'. fst e = fst e' \<and> reorder (snd e) (snd e') \<and>
              structureHash (buildFolderStructure_node digest (base @ rel @ [fst e]) base (snd e))
              = structureHash (buildFolderStructure_node digest (base' @ rel @ [fst e]) base' (snd e'))) es es'"
  shows "child_dirs digest base rel es = child_dirs digest base' rel es'"
  using assms
proof (induction rule: list_all2_induct)
  case Nil
  show ?case by (simp add: child_dirs_def)
next
  case (Cons e es e' es')
  obtain nm t where e: "e = (nm, t)" by (cases e)
  obtain nm' t' where e': "e' = (nm', t')" by (cases e')
  from Cons(1) e e' have n: "nm' = nm" and r: "reorder t t'"
    and h: "structureHash (buildFolderStructure_node digest (base @ rel @ [nm]) base t)
              = structureHash (buildFolderStructure_node digest (base' @ rel @ [nm]) base' t')" by auto
  from r have "dirent_isDirectory t' = dirent_isDirectory t" by (rule reorder_isDirectory_iff)
  with Cons.IH n h e e' show ?case by (simp add: child_dirs_def)
qed

lemma mset_direct_files:
  "mset es = mset es' \<Longrightarrow> mset (direct_files digest rel es) = mset (direct_files digest rel es')"
  by (simp add: direct_files_def)

lemma mset_child_dirs:
  "mset es = mset es' \<Longrightarrow> mset (child_dirs digest base rel es) = mset (child_dirs digest base rel es')"
  by (simp add: child_dirs_def)

lemma distinct_child_dirs:
  assumes "distinct (map fst es)"
  shows "distinct (map fst (child_dirs digest base rel es))"
proof -
  have "map fst (child_dirs digest base rel es)
      = map fst (filter (\<lambda>(nm, entry). dirent_isDirectory entry) es)"
    by (simp add: child_dirs_def split_def comp_def)
  with assms show ?thesis by (simp add: distinct_map_filter)
qed

lemma sorted_files_unique:
  assumes "comma_free digest" "distinct (map fst es)" "mset es = mset es'"
  shows "sort_key (\<lambda>(p, h). p @ '','' @ h) (direct_files digest rel es)
       = sort_key (\<lambda>(p, h). p @ '','' @ h) (direct_files digest rel es')"
proof (rule sort_key_unique)
  show "mset (direct_files digest rel es) = mset (direct_files digest rel es')"
    using assms(3) by (rule mset_direct_files)
  have d: "distinct (map fst (direct_files digest rel es))"
    using assms(2) by (rule distinct_direct_files)
  then show "distinct (direct_files digest rel es)" by (rule distinct_map[THEN iffD1, THEN conjunct1])
  show "inj_on (\<lambda>(p, h). p @ '','' @ h) (set (direct_files digest rel es))"
  proof (rule inj_on_key[OF d])
    fix a b
    assume a: "a \<in> set (direct_files digest rel es)" and b: "b \<in> set (direct_files digest rel es)"
      and k: "(case a of (p, h) \<Rightarrow> p @ '','' @ h) = (case b of (p, h) \<Rightarrow> p @ '','' @ h)"
    obtain p1 h1 where a': "a = (p1, h1)" by (cases a)
    obtain p2 h2 where b': "b = (p2, h2)" by (cases b)
    from a a' obtain n1 where "h1 = fingerprint digest n1" by (auto simp: direct_files_def)
    with assms(1) have c1: "CHR '','' \<notin> set h1" by (simp add: fingerprint_comma_free)
    from b b' obtain n2 where "h2 = fingerprint digest n2" by (auto simp: direct_files_def)
    with assms(1) have c2: "CHR '','' \<notin> set h2" by (simp add: fingerprint_comma_free)
    from k a' b' have "p1 @ CHR '','' # h1 = p2 @ CHR '','' # h2" by simp
    with c1 c2 have "p1 = p2 \<and> h1 = h2" by (rule split_at_last_comma)
    with a' b' show "fst a = fst b" by simp
  qed
qed

lemma sorted_dirs_unique:
  assumes "distinct (map fst es)" "mset es = mset es'"
  shows "sort_key (\<lambda>(nm, h). nm @ '',[object Object]'') (child_dirs digest base rel es)
       = sort_key (\<lambda>(nm, h). nm @ '',[object Object]'') (child_dirs digest base rel es')"
proof (rule sort_key_unique)
  show "mset (child_dirs digest base rel es) = mset (child_dirs digest base rel es')"
    using assms(2) by (rule mset_child_dirs)
  have d: "distinct (map fst (child_dirs digest base rel es))"
    using assms(1) by (rule distinct_child_dirs)
  then show "distinct (child_dirs digest base rel es)" by (rule distinct_map[THEN iffD1, THEN conjunct1])
  show "inj_on (\<lambda>(nm, h). nm @ '',[object Object]'') (set (child_dirs digest base rel es))"
  proof (rule inj_on_key[OF d])
    fix a b :: "string \<times> string"
    assume "(case a of (nm, h) \<Rightarrow> nm @ '',[object Object]'') = (case b of (nm, h) \<Rightarrow> nm @ '',[object Object]'')"
    then show "fst a = fst b" by (cases a; cases b) simp
  qed
qed

lemma hash_input_reordered:
  assumes "comma_free digest" "distinct (map fst es)" "mset es = mset es'"
  shows "hash_input (direct_files digest rel es) (child_dirs digest base rel es)
       = hash_input (direct_files digest rel es') (child_dirs digest base rel es')"
  unfolding hash_input_def
  using sorted_files_unique[OF assms, of rel] sorted_dirs_unique[OF assms(2,3), of digest base rel]
  by simp

lemma pointwise_names:
  "list_all2 (\<lambda>e e'. fst e = fst e' \<and> Q e e') es es' \<Longrightarrow> map fst es = map fst es'"
  by (induction rule: list_all2_induct) auto

lemma build_ignores_listing_order:
  assumes "reorder t t'" and "wf_names t" and "comma_free digest"
  shows "structureHash (buildFolderStructure_node digest (base @ rel) base t)
       = structureHash (buildFolderStructure_node digest (base' @ rel) base' t')"
  using assms(1,2)
proof (induction arbitrary: rel rule: reorder.induct)
  case (reorder_File c r)
  show ?case by simp
next
  case reorder_Other
  show ?case by simp
next
  case reorder_broken
  show ?case by simp
next
  case (reorder_link t t')
  then show ?case by simp
next
  case (reorder_Dir es es'' es' r)
  from reorder_Dir.prems have d: "distinct (map fst es)"
    and wf: "\<And>e. e \<in> set es \<Longrightarrow> wf_names (snd e)" by simp_all
  have names: "map fst es = map fst es''"
    using reorder_Dir.IH by (rule pointwise_names)
  with d have d'': "distinct (map fst es'')" by simp
  have "mset (map fst es'') = mset (map fst es')"
    using reorder_Dir.hyps(1) by (metis mset_map)
  with d'' have d': "distinct (map fst es')" by (metis mset_eq_imp_distinct_iff)
  show ?case
  proof (cases r)
    case False
    then show ?thesis by simp
  next
    case True
    then have rT: "r = True" by simp
    have pw: "list_all2 (\<lambda>e e'. fst e = fst e' \<and> reorder (snd e) (snd e') \<and>
              structureHash (buildFolderStructure_node digest (base @ rel @ [fst e]) base (snd e))
              = structureHash (buildFolderStructure_node digest (base' @ rel @ [fst e]) base' (snd e'))) es es''"
      using reorder_Dir.IH by (rule list.rel_mono_strong) (use wf in auto)
    have pw0: "list_all2 (\<lambda>e e'. fst e = fst e' \<and> reorder (snd e) (snd e')) es es''"
      using reorder_Dir.IH by (rule list_all2_mono) auto
    have "structureHash (buildFolderStructure_node digest (base @ rel) base (Dir es r))
        = digest (hash_input (direct_files digest rel es) (child_dirs digest base rel es))"
      unfolding rT using d by (rule structure_hash_Dir)
    also have "direct_files digest rel es = direct_files digest rel es''"
      using pw0 by (rule direct_files_pointwise)
    also have "child_dirs digest base rel es = child_dirs digest base' rel es''"
      using pw by (rule child_dirs_pointwise)
    also have "hash_input (direct_files digest rel es'') (child_dirs digest base' rel es'')
        = hash_input (direct_files digest rel es') (child_dirs digest base' rel es')"
      using assms(3) d'' reorder_Dir.hyps(1) by (rule hash_input_reordered)
    also have "digest (hash_input (direct_files digest rel es') (child_dirs digest base' rel es'))
        = structureHash (buildFolderStructure_node digest (base' @ rel) base' (Dir es' r))"
      unfolding rT using d' by (rule structure_hash_Dir[symmetric])
    finally show ?thesis .
  qed
qed

text \<open>
  Claim C3 as the specification states it fails on the code. With the identity as digest
  the structure hash is the very text that is hashed: for a directory that holds one
  sub-directory with one file, the code hashes the entry of the sub-directory only, while
  the specification also lists the descendant file, and gives the child its fingerprint
  with paths relative to the child. Under an injective digest the two values differ just
  the same (\<open>nested_digests_differ\<close> below; \<open>distinct_digests_differ\<close> shows it for a
  second difference, the order of the entries).
\<close>

theorem composite_fingerprint_counterexample:
  "structureHash (buildFolderStructure (\<lambda>s. s) (Dir [(''D'', nested_tree)] True) [''D''] [''D''])
   \<noteq> spec_compositeFingerprint (\<lambda>s. s) nested_tree"
  by (simp add: buildFolderStructure_def nested_tree_def calculateStructureHash_def
      basename_def join_def)

lemma listing_order_differs:
  "structureHash (buildFolderStructure (\<lambda>s. s) (Dir [(''D'', flat_tree)] True) [''D''] [''D''])
     = ''file:a:xfile:a.txt:y''
   \<and> spec_compositeFingerprint (\<lambda>s. s) flat_tree = ''file:a.txt:yfile:a:x''"
  by (simp add: buildFolderStructure_def flat_tree_def calculateStructureHash_def
      basename_def join_def)

lemma nested_digests_differ:
  assumes "inj digest"
  shows "structureHash (buildFolderStructure digest (Dir [(''D'', nested_tree)] True) [''D''] [''D''])
   \<noteq> spec_compositeFingerprint digest nested_tree"
proof -
  have "structureHash (buildFolderStructure digest (Dir [(''D'', nested_tree)] True) [''D''] [''D''])
      = digest (''dir:sub:'' @ digest (''file:sub/a.txt:'' @ digest ''x''))"
    by (simp add: buildFolderStructure_def nested_tree_def calculateStructureHash_def
      basename_def join_def)
  moreover have "spec_compositeFingerprint digest nested_tree
      = digest (''file:sub/a.txt:'' @ digest ''x''
                @ ''dir:sub:'' @ digest (''file:a.txt:'' @ digest ''x''))"
    by (simp add: nested_tree_def)
  ultimately show ?thesis using assms by (simp add: inj_eq)
qed

lemma distinct_digests_differ:
  assumes "inj digest"
  shows "structureHash (buildFolderStructure digest (Dir [(''D'', flat_tree)] True) [''D''] [''D''])
   \<noteq> spec_compositeFingerprint digest flat_tree"
proof -
  have "structureHash (buildFolderStructure digest (Dir [(''D'', flat_tree)] True) [''D''] [''D''])
      = digest (''file:a:'' @ digest ''x'' @ ''file:a.txt:'' @ digest ''y'')"
    by (simp add: buildFolderStructure_def flat_tree_def calculateStructureHash_def
      basename_def join_def)
  moreover have "spec_compositeFingerprint digest flat_tree
      = digest (''file:a.txt:'' @ digest ''y'' @ ''file:a:'' @ digest ''x'')"
    by (simp add: flat_tree_def)
  ultimately show ?thesis using assms by (simp add: inj_eq)
qed

text \<open>
  Claim C3, as the code has it. For a directory whose listing holds no name twice, the
  structure hash is the digest of the concatenation of two entry lists: one entry
  \<^verbatim>\<open>file:<path>:<fingerprint>\<close> for every regular file that stands directly in the
  directory, the path relative to the base directory of the build and the fingerprint
  replaced by \<^verbatim>\<open>error\<close> when the file cannot be read, in the order of the texts
  \<^verbatim>\<open><path>,<fingerprint>\<close>; and one entry \<^verbatim>\<open>dir:<name>:<hash>\<close> for every immediate child
  directory, with the structure hash the child gets under the same base directory, in the
  order of the texts \<^verbatim>\<open><name>,[object Object]\<close>.
\<close>

theorem structure_hash_of_directory:
  assumes "distinct (map fst es)"
  shows "structureHash (buildFolderStructure_node digest (base @ rel) base (Dir es True))
       = digest (hash_input (direct_files digest rel es) (child_dirs digest base rel es))"
  using assms by (rule structure_hash_Dir)

theorem structure_hash_of_directory_witness:
  "structureHash (buildFolderStructure_node (\<lambda>s. s) ([''D''] @ []) [''D'']
      (Dir [(''a'', File ''x'' True), (''sub'', Dir [(''k'', File ''1'' True)] True),
            (''a.txt'', File ''y'' False)] True))
   = ''file:a:xfile:a.txt:errordir:sub:file:sub/k:1''"
  using structure_hash_of_directory [of
      "[(''a'', File ''x'' True), (''sub'', Dir [(''k'', File ''1'' True)] True),
        (''a.txt'', File ''y'' False)]" "\<lambda>s. s" "[''D'']" "[]"]
  by (simp add: hash_input_def direct_files_def child_dirs_def calculateStructureHash_def
      basename_def join_def)

text \<open>
  Claim C4. Two directories whose trees differ only in the order in which their listings
  enumerate the entries (same relative paths, same bytes, same readability) get the same
  structure hash, wherever they stand. It is proved for listings that hold no name twice,
  as every file system guarantees, and for a digest whose output holds no comma, as a
  hexadecimal digest does: the sort key of a file entry is \<^verbatim>\<open><path>,<fingerprint>\<close>, and
  only a comma inside a fingerprint could make two entries share a key.
\<close>

theorem fingerprint_ignores_listing_order:
  assumes "resolve root p = Some t" and "resolve root' p' = Some t'"
    and "reorder t t'" and "wf_names t" and "comma_free digest"
  shows "structureHash (buildFolderStructure digest root p p)
       = structureHash (buildFolderStructure digest root' p' p')"
  using build_ignores_listing_order[OF assms(3,4,5), of p "[]" p'] assms(1,2)
  by (simp add: buildFolderStructure_def)

lemma reorder_shuffled: "reorder shuffled_a shuffled_b"
  unfolding shuffled_a_def shuffled_b_def
proof (rule reorder_Dir)
  show "list_all2 (\<lambda>e e'. fst e = fst e' \<and> reorder (snd e) (snd e'))
      [(''a'', File ''x'' True),
       (''sub'', Dir [(''k'', File ''1'' True), (''l'', File ''2'' False)] True),
       (''a.txt'', File ''y'' True)]
      [(''a'', File ''x'' True),
       (''sub'', Dir [(''l'', File ''2'' False), (''k'', File ''1'' True)] True),
       (''a.txt'', File ''y'' True)]"
  proof -
    have "reorder (Dir [(''k'', File ''1'' True), (''l'', File ''2'' False)] True)
        (Dir [(''l'', File ''2'' False), (''k'', File ''1'' True)] True)"
      by (rule reorder_Dir[where es'' = "[(''k'', File ''1'' True), (''l'', File ''2'' False)]"])
         (simp_all add: reorder_File)
    then show ?thesis by (simp add: reorder_File)
  qed
  show "mset [(''a'', File ''x'' True),
       (''sub'', Dir [(''l'', File ''2'' False), (''k'', File ''1'' True)] True),
       (''a.txt'', File ''y'' True)]
     = mset [(''a.txt'', File ''y'' True),
                     (''sub'', Dir [(''l'', File ''2'' False), (''k'', File ''1'' True)] True),
                     (''a'', File ''x'' True)]"
    by simp
qed

theorem fingerprint_ignores_listing_order_witness:
  "resolve (Dir [(''left'', shuffled_a), (''right'', shuffled_b)] True) [''left''] = Some shuffled_a
   \<and> resolve (Dir [(''left'', shuffled_a), (''right'', shuffled_b)] True) [''right''] = Some shuffled_b
   \<and> reorder shuffled_a shuffled_b \<and> wf_names shuffled_a \<and> comma_free strip_commas
   \<and> shuffled_a \<noteq> shuffled_b
   \<and> structureHash (buildFolderStructure strip_commas
         (Dir [(''left'', shuffled_a), (''right'', shuffled_b)] True) [''left''] [''left''])
     = structureHash (buildFolderStructure strip_commas
         (Dir [(''left'', shuffled_a), (''right'', shuffled_b)] True) [''right''] [''right''])"
proof -
  have r1: "resolve (Dir [(''left'', shuffled_a), (''right'', shuffled_b)] True) [''left''] = Some shuffled_a"
    by simp
  have r2: "resolve (Dir [(''left'', shuffled_a), (''right'', shuffled_b)] True) [''right''] = Some shuffled_b"
    by simp
  have wf: "wf_names shuffled_a" by (simp add: shuffled_a_def)
  have cf: "comma_free strip_commas" by (simp add: comma_free_def strip_commas_def)
  have ne: "shuffled_a \<noteq> shuffled_b" by (simp add: shuffled_a_def shuffled_b_def)
  from fingerprint_ignores_listing_order [OF r1 r2 reorder_shuffled wf cf] r1 r2
    reorder_shuffled wf cf ne
  show ?thesis by blast
qed

section \<open>Undoing operations\<close>

lemma deleted_state_eq:
  "deleted_state = \<lparr>operations = [\<lparr>id_u = ''undo_1'', timestamp = 1, action = DELETE,
         originalPath = ''/data/report.txt'', backupPath = Some report_backup, newPath = None\<rparr>],
       disk = [report_backup \<mapsto> ''hello''], denied = {},
       history = [\<lparr>id_u = ''undo_1'', timestamp = 1, action = DELETE,
         originalPath = ''/data/report.txt'', backupPath = Some report_backup, newPath = None\<rparr>],
       history_locked = False\<rparr>"
  by (simp add: deleted_state_def recordOperation_def createBackup_def copyFile_def unlink_def
      saveHistory_def report_state_def report_backup_def backupDirectory_def join_text_def
      basename_text_def Let_def fun_upd_twist)

text \<open>
  Claim C1 at a concrete run. A file is deleted through \<open>recordOperation\<close> (the backup is
  written and the entry logged) and then removed; the delete is undone by its id. The
  original is back with its bytes, the entry has left the log, and a second undo of the
  same id answers that the operation is not found and changes nothing. But the backup
  file is still on the disk: \<open>undoOperation\<close> copies it and never deletes it, and since the
  entry is gone, \<open>clearHistory\<close>, the one function that deletes backups, does not reach
  it any more.
\<close>

theorem undo_delete_leaves_backup:
  "fst (undoOperation deleted_state ''undo_1'') = Undone
   \<and> disk (snd (undoOperation deleted_state ''undo_1'')) ''/data/report.txt'' = Some ''hello''
   \<and> disk (snd (undoOperation deleted_state ''undo_1'')) report_backup = Some ''hello''
   \<and> operations (snd (undoOperation deleted_state ''undo_1'')) = []
   \<and> undoOperation (snd (undoOperation deleted_state ''undo_1'')) ''undo_1''
       = (OperationNotFound, snd (undoOperation deleted_state ''undo_1''))
   \<and> disk (clearHistory (snd (undoOperation deleted_state ''undo_1''))) report_backup
       = Some ''hello''"
  by (simp add: deleted_state_eq undoOperation_def truthy_def copyFile_def removeFromHistory_def
      saveHistory_def splice1_def report_backup_def clearHistory_def)

lemma findIndex_Some:
  "findIndex P xs = Some k \<Longrightarrow> k < length xs \<and> P (xs ! k) \<and> (\<forall>j < k. \<not> P (xs ! j))"
proof (induction xs arbitrary: k)
  case Nil
  then show ?case by simp
next
  case (Cons x xs)
  show ?case
  proof (cases "P x")
    case True
    with Cons.prems show ?thesis by simp
  next
    case False
    with Cons.prems obtain i where i: "findIndex P xs = Some i" "k = Suc i"
      by (auto split: option.splits)
    from Cons.IH[OF i(1)] False i(2) show ?thesis
      by (auto simp: nth_Cons split: nat.splits)
  qed
qed

lemma findIndex_None: "findIndex P xs = None \<longleftrightarrow> (\<forall>x \<in> set xs. \<not> P x)"
  by (induction xs) (auto split: option.splits)

text \<open>
  Claim C8. When the entry found for an id is a delete whose backup file, or a move or
  rename whose destination file, is missing from the disk, \<open>undoOperation\<close> fails with
  \<^verbatim>\<open>ENOENT\<close> (it returns false), and the whole state is the one before the call: the
  operations in memory with the entry in its place, the disk, and the history file. The
  entry names its file: a backup or destination path that is unset or the empty text is
  skipped by the guard \<^verbatim>\<open>if (operation.backupPath)\<close> and is not the case stated here.
\<close>

theorem undo_missing_file_fails:
  assumes "findIndex (\<lambda>op. id_u op = i) (operations st) = Some k"
    and "(action (operations st ! k) = DELETE \<and> backupPath (operations st ! k) = Some f)
         \<or> (action (operations st ! k) = MOVE \<and> newPath (operations st ! k) = Some f)
         \<or> (action (operations st ! k) = RENAME \<and> newPath (operations st ! k) = Some f)"
    and "f \<noteq> []" and "disk st f = None"
  shows "undoOperation st i = (UndoFailed ENOENT, st)
       \<and> \<not> returned (fst (undoOperation st i))
       \<and> operations (snd (undoOperation st i)) ! k = operations st ! k"
proof -
  have "undoOperation st i = (UndoFailed ENOENT, st)"
    using assms by (auto simp: undoOperation_def truthy_def copyFile_def rename_def Let_def)
  then show ?thesis by simp
qed

theorem undo_missing_file_fails_witness:
  "undoOperation orphan_state ''undo_1'' = (UndoFailed ENOENT, orphan_state)
   \<and> undoOperation orphan_state ''undo_2'' = (UndoFailed ENOENT, orphan_state)"
proof -
  have a: "findIndex (\<lambda>op. id_u op = ''undo_1'') (operations orphan_state) = Some 0"
    by (simp add: orphan_state_def)
  have b: "findIndex (\<lambda>op. id_u op = ''undo_2'') (operations orphan_state) = Some 1"
    by (simp add: orphan_state_def)
  have "undoOperation orphan_state ''undo_1'' = (UndoFailed ENOENT, orphan_state)"
    using undo_missing_file_fails [OF a, of "''/backups/1_a.txt''"]
    by (simp add: orphan_state_def)
  moreover have "undoOperation orphan_state ''undo_2'' = (UndoFailed ENOENT, orphan_state)"
    using undo_missing_file_fails [OF b, of "''/archive/b.txt''"]
    by (simp add: orphan_state_def)
  ultimately show ?thesis by simp
qed


lemma undo_delete_restores:
  assumes "findIndex (\<lambda>op. id_u op = i) (operations st) = Some k"
    and "action (operations st ! k) = DELETE"
    and "backupPath (operations st ! k) = Some b" and "b \<noteq> []"
    and "disk st b = Some bytes" and "originalPath (operations st ! k) \<notin> denied st"
  shows "fst (undoOperation st i) = Undone
       \<and> disk (snd (undoOperation st i)) (originalPath (operations st ! k)) = Some bytes
       \<and> disk (snd (undoOperation st i)) b = Some bytes
       \<and> operations (snd (undoOperation st i)) = splice1 (operations st) k"
  using assms
  by (auto simp: undoOperation_def truthy_def copyFile_def removeFromHistory_def
      saveHistory_def Let_def)

lemma undo_twice_not_found:
  assumes "findIndex (\<lambda>op. id_u op = i) (operations st) = None"
  shows "undoOperation st i = (OperationNotFound, st)"
  using assms by (simp add: undoOperation_def)

section \<open>The configured ignore patterns\<close>

lemma replace_chars_Nil: "replace_chars hit by [] = []"
  by (simp add: replace_chars_def)

lemma replace_chars_Cons:
  "replace_chars hit by (c # cs) = (if hit c then by c else [c]) @ replace_chars hit by cs"
  by (simp add: replace_chars_def)

lemma replace_chars_append:
  "replace_chars hit by (a @ b) = replace_chars hit by a @ replace_chars hit by b"
  by (simp add: replace_chars_def)

lemma glob_source_chars:
  "glob_source pat
   = concat (map (\<lambda>c. if c = CHR ''.'' then [CHR 0x5C, CHR ''.'']
                      else if c = CHR ''*'' then ''.*''
                      else if c = CHR ''?'' then ''.''
                      else [c]) pat)"
proof (induction pat)
  case Nil
  show ?case by (simp add: glob_source_def replace_chars_def)
next
  case (Cons c cs)
  have "glob_source (c # cs)
      = (if c = CHR ''.'' then [CHR 0x5C, CHR ''.'']
         else if c = CHR ''*'' then ''.*''
         else if c = CHR ''?'' then ''.''
         else [c]) @ glob_source cs"
    by (simp add: glob_source_def replace_chars_Nil replace_chars_Cons replace_chars_append)
  with Cons.IH show ?case by simp
qed

lemma glob_source_log: "glob_source ''*.log'' = ''.*'' @ [CHR 0x5C] @ ''.log''"
  by (simp add: glob_source_def replace_chars_def)

lemma RegExp_log: "RegExp (glob_source ''*.log'') = Compiled log_rx"
  by (simp add: glob_source_log RegExp_def add_term_def close_frame_def quantify_def
      log_rx_def startsWith_def lazy_def atom_escape_def class_escape_def digit_value_def
      character_escape_def control_escape_def octal_value_def)

lemma test_iff: "test r s \<longleftrightarrow> (\<exists>u v. s = u @ v \<and> match_at r u v)"
proof
  assume "test r s"
  then obtain k where "match_at r (take k s) (drop k s)"
    unfolding test_def list_ex_iff by blast
  moreover have "s = take k s @ drop k s" by simp
  ultimately show "\<exists>u v. s = u @ v \<and> match_at r u v" by blast
next
  assume "\<exists>u v. s = u @ v \<and> match_at r u v"
  then obtain u v where s: "s = u @ v" and m: "match_at r u v" by blast
  from s have "length u \<in> set [0..<Suc (length s)]" by simp
  moreover from s m have "match_at r (take (length u) s) (drop (length u) s)" by simp
  ultimately show "test r s" unfolding test_def list_ex_iff by blast
qed

lemma run_Seq_nonempty: "run (Seq a b) st \<noteq> [] \<longleftrightarrow> (\<exists>y \<in> set (run a st). run b y \<noteq> [])"
  by auto

lemma run_literal_log:
  "run (Seq (Chr CHR ''.'') (Seq (Chr CHR ''l'') (Seq (Chr CHR ''o'') (Chr CHR ''g'')))) (p, s, c) \<noteq> []
   \<longleftrightarrow> (\<exists>v. s = ''.log'' @ v)"
proof (cases s)
  case Nil then show ?thesis by simp
next
  case (Cons a t1)
  note a = this
  show ?thesis
  proof (cases t1)
    case Nil with a show ?thesis by simp
  next
    case (Cons b t2)
    note b = this
    show ?thesis
    proof (cases t2)
      case Nil with a b show ?thesis by simp
    next
      case (Cons c t3)
      note c = this
      show ?thesis
      proof (cases t3)
        case Nil with a b c show ?thesis by simp
      next
        case (Cons d t4)
        with a b c show ?thesis by simp
      qed
    qed
  qed
qed

lemma match_at_log_rx: "match_at log_rx u s \<Longrightarrow> \<exists>w v. s = w @ ''.log'' @ v"
proof -
  let ?lit = "Seq (Chr CHR ''.'') (Seq (Chr CHR ''l'') (Seq (Chr CHR ''o'') (Chr CHR ''g'')))"
  let ?st = "(if u = [] then None else Some (last u), s, [])"
  assume "match_at log_rx u s"
  then have "run (Seq (Rep 0 None Dot) ?lit) ?st \<noteq> []"
    unfolding match_at_def log_rx_def .
  then obtain y where y: "y \<in> set (run (Rep 0 None Dot) ?st)" and l: "run ?lit y \<noteq> []"
    unfolding run_Seq_nonempty[of "Rep 0 None Dot" ?lit] by blast
  obtain p t c where f: "y = (p, t, c)" by (cases y)
  from l f have "run ?lit (p, t, c) \<noteq> []" by simp
  then obtain v where "t = ''.log'' @ v" unfolding run_literal_log by blast
  moreover from run_suffix[OF y] f obtain w where "s = w @ t" by auto
  ultimately show ?thesis by blast
qed

lemma log_rx_match_at: "match_at log_rx u (''.log'' @ v)"
proof -
  let ?lit = "Seq (Chr CHR ''.'') (Seq (Chr CHR ''l'') (Seq (Chr CHR ''o'') (Chr CHR ''g'')))"
  let ?st = "(if u = [] then None else Some (last u), ''.log'' @ v, [])"
  have "?st \<in> set (run (Rep 0 None Dot) ?st)" by (simp add: rep_zero_rounds)
  moreover have "run ?lit ?st \<noteq> []" unfolding run_literal_log by simp
  ultimately have "run (Seq (Rep 0 None Dot) ?lit) ?st \<noteq> []"
    unfolding run_Seq_nonempty[of "Rep 0 None Dot" ?lit] by blast
  then show ?thesis unfolding match_at_def log_rx_def .
qed

lemma test_log_rx: "test log_rx s \<longleftrightarrow> (\<exists>u v. s = u @ ''.log'' @ v)"
proof
  assume "test log_rx s"
  then obtain u t where s: "s = u @ t" and "match_at log_rx u t" unfolding test_iff by blast
  from match_at_log_rx[OF this(2)] obtain w v where "t = w @ ''.log'' @ v" by blast
  with s have "s = (u @ w) @ ''.log'' @ v" by simp
  then show "\<exists>u v. s = u @ ''.log'' @ v" by blast
next
  assume "\<exists>u v. s = u @ ''.log'' @ v"
  then obtain u v where "s = u @ ''.log'' @ v" by blast
  with log_rx_match_at[of u v] show "test log_rx s" unfolding test_iff by blast
qed

text \<open>
  \<^verbatim>\<open>some\<close> over the patterns: it answers \<^verbatim>\<open>true\<close> at the first pattern that matches, when
  every pattern before it compiled, and \<^verbatim>\<open>false\<close> when every pattern compiled and none
  matched; in every other case the constructor has thrown.
\<close>

lemma some_matches_True:
  "some_matches s pats = Inr True \<longleftrightarrow>
     (\<exists>earlier pat later. pats = earlier @ pat # later
        \<and> (\<forall>q \<in> set earlier. \<exists>r. RegExp (glob_source q) = Compiled r)
        \<and> (\<exists>r. RegExp (glob_source pat) = Compiled r \<and> test r s))"
proof (induction pats)
  case Nil
  show ?case by simp
next
  case (Cons p ps)
  let ?R = "\<lambda>pats. \<exists>earlier pat later. pats = earlier @ pat # later
        \<and> (\<forall>q \<in> set earlier. \<exists>r. RegExp (glob_source q) = Compiled r)
        \<and> (\<exists>r. RegExp (glob_source pat) = Compiled r \<and> test r s)"
  have step: "?R (p # ps) \<longleftrightarrow>
      (\<exists>r. RegExp (glob_source p) = Compiled r \<and> (test r s \<or> ?R ps))"
  proof
    assume "?R (p # ps)"
    then obtain earlier pat later where d: "p # ps = earlier @ pat # later"
      and b: "\<forall>q \<in> set earlier. \<exists>r. RegExp (glob_source q) = Compiled r"
      and m: "\<exists>r. RegExp (glob_source pat) = Compiled r \<and> test r s"
      by blast
    show "\<exists>r. RegExp (glob_source p) = Compiled r \<and> (test r s \<or> ?R ps)"
    proof (cases earlier)
      case Nil
      with d m show ?thesis by auto
    next
      case (Cons q qs)
      with d have p: "p = q" and ps: "ps = qs @ pat # later" by simp_all
      from b Cons p obtain r where r: "RegExp (glob_source p) = Compiled r" by auto
      from b Cons have "\<forall>q \<in> set qs. \<exists>r. RegExp (glob_source q) = Compiled r" by simp
      with ps m have "?R ps" by blast
      with r show ?thesis by blast
    qed
  next
    assume "\<exists>r. RegExp (glob_source p) = Compiled r \<and> (test r s \<or> ?R ps)"
    then obtain r where r: "RegExp (glob_source p) = Compiled r" and c: "test r s \<or> ?R ps"
      by blast
    from c show "?R (p # ps)"
    proof
      assume "test r s"
      with r have "p # ps = [] @ p # ps \<and> (\<forall>q \<in> set []. \<exists>r. RegExp (glob_source q) = Compiled r)
          \<and> (\<exists>r. RegExp (glob_source p) = Compiled r \<and> test r s)" by simp
      then show ?thesis by blast
    next
      assume "?R ps"
      then obtain earlier pat later where d: "ps = earlier @ pat # later"
        and b: "\<forall>q \<in> set earlier. \<exists>r. RegExp (glob_source q) = Compiled r"
        and m: "\<exists>r. RegExp (glob_source pat) = Compiled r \<and> test r s"
        by blast
      from d b r have "p # ps = (p # earlier) @ pat # later
          \<and> (\<forall>q \<in> set (p # earlier). \<exists>r. RegExp (glob_source q) = Compiled r)" by simp
      with m show ?thesis by blast
    qed
  qed
  show ?case
  proof (cases "RegExp (glob_source p)")
    case (Compiled r)
    with Cons.IH step show ?thesis by (cases "test r s") simp_all
  next
    case Rejected
    with step show ?thesis by simp
  next
    case Unmodelled
    with step show ?thesis by simp
  qed
qed

lemma some_matches_False:
  "some_matches s pats = Inr False \<longleftrightarrow>
     (\<forall>pat \<in> set pats. \<exists>r. RegExp (glob_source pat) = Compiled r \<and> \<not> test r s)"
proof (induction pats)
  case Nil
  show ?case by simp
next
  case (Cons p ps)
  then show ?case by (cases "RegExp (glob_source p)") auto
qed

lemma getFileMetadata_path: "getFileMetadata root p = Inr m \<Longrightarrow> path m = p"
  by (auto simp: getFileMetadata_def split: sum.splits prod.splits)

lemma scan_loop_kept:
  assumes "scan_loop digest root opts ps (fs, ds, tot) = Inr (fs', ds', tot')"
    and "\<forall>f \<in> set fs \<union> set ds. shouldIgnoreFile (render (path f)) (ignorePatterns opts) = Inr False"
  shows "\<forall>f \<in> set fs' \<union> set ds'. shouldIgnoreFile (render (path f)) (ignorePatterns opts) = Inr False"
  using assms
proof (induction ps arbitrary: fs ds tot)
  case Nil
  then show ?case by simp
next
  case (Cons p ps)
  show ?case
  proof (cases "shouldIgnoreFile (render p) (ignorePatterns opts)")
    case (Inl e)
    with Cons.prems(1) show ?thesis by simp
  next
    case (Inr b)
    show ?thesis
    proof (cases b)
      case True
      with Inr Cons.prems have "scan_loop digest root opts ps (fs, ds, tot) = Inr (fs', ds', tot')"
        by simp
      from Cons.IH[OF this Cons.prems(2)] show ?thesis .
    next
      case False
      from Inr False have keep: "shouldIgnoreFile (render p) (ignorePatterns opts) = Inr False"
        by simp
      show ?thesis
      proof (cases "getFileMetadata root p")
        case (Inl e)
        with keep Cons.prems have "scan_loop digest root opts ps (fs, ds, tot) = Inr (fs', ds', tot')"
          by simp
        from Cons.IH[OF this Cons.prems(2)] show ?thesis .
      next
        case (Inr m)
        then have pm: "path m = p" by (rule getFileMetadata_path)
        show ?thesis
        proof (cases "isDirectory m")
          case True
          with keep Inr Cons.prems
          have "scan_loop digest root opts ps (fs, ds @ [m], tot) = Inr (fs', ds', tot')" by simp
          moreover have "\<forall>f \<in> set fs \<union> set (ds @ [m]).
              shouldIgnoreFile (render (path f)) (ignorePatterns opts) = Inr False"
            using Cons.prems(2) keep pm by auto
          ultimately show ?thesis by (rule Cons.IH)
        next
          case notdir: False
          show ?thesis
          proof (cases "size_f m > 0")
            case False
            with notdir keep Inr Cons.prems
            have "scan_loop digest root opts ps (fs @ [m], ds, tot + size_f m) = Inr (fs', ds', tot')"
              by simp
            moreover have "\<forall>f \<in> set (fs @ [m]) \<union> set ds.
                shouldIgnoreFile (render (path f)) (ignorePatterns opts) = Inr False"
              using Cons.prems(2) keep pm by auto
            ultimately show ?thesis by (rule Cons.IH)
          next
            case True
            show ?thesis
            proof (cases "calculateFileHash digest root p")
              case (Inl e)
              with True notdir keep Inr Cons.prems
              have "scan_loop digest root opts ps (fs, ds, tot) = Inr (fs', ds', tot')" by simp
              from Cons.IH[OF this Cons.prems(2)] show ?thesis .
            next
              case hashed: (Inr h)
              with True notdir keep Inr Cons.prems
              have "scan_loop digest root opts ps (fs @ [m\<lparr>hash := Some h\<rparr>], ds, tot + size_f m)
                  = Inr (fs', ds', tot')" by simp
              moreover have "\<forall>f \<in> set (fs @ [m\<lparr>hash := Some h\<rparr>]) \<union> set ds.
                  shouldIgnoreFile (render (path f)) (ignorePatterns opts) = Inr False"
                using Cons.prems(2) keep pm by auto
              ultimately show ?thesis by (rule Cons.IH)
            qed
          qed
        qed
      qed
    qed
  qed
qed

lemma scan_kept:
  assumes "scan digest root opts = Inr res"
  shows "\<forall>f \<in> set (files_r res) \<union> set (directories_r res).
           shouldIgnoreFile (render (path f)) (ignorePatterns opts) = Inr False"
proof -
  from assms obtain fs ds tot where
    l: "scan_loop digest root opts (getFilePathsNative root opts) ([], [], 0) = Inr (fs, ds, tot)"
    and res: "res = \<lparr>files_r = fs, directories_r = ds, totalFiles = length fs, totalSize_r = tot\<rparr>"
    by (auto simp: scan_def split: sum.splits prod.splits)
  from scan_loop_kept[OF l] show ?thesis by (simp add: res)
qed

lemma shouldIgnoreFile_log:
  "shouldIgnoreFile filePath [''*.log''] = Inr (\<exists>u v. normalized filePath = u @ ''.log'' @ v)"
  by (simp add: shouldIgnoreFile_def RegExp_log test_log_rx)

lemma shouldIgnoreFile_log_member:
  assumes "shouldIgnoreFile filePath pats = Inr False" and "''*.log'' \<in> set pats"
  shows "\<not> (\<exists>u v. normalized filePath = u @ ''.log'' @ v)"
proof -
  from assms obtain r where "RegExp (glob_source ''*.log'') = Compiled r"
    and "\<not> test r (normalized filePath)"
    unfolding shouldIgnoreFile_def some_matches_False by blast
  then show ?thesis by (simp add: RegExp_log test_log_rx)
qed

lemma normalized_chars:
  "normalized filePath = map (\<lambda>c. if c = CHR 0x5C then CHR ''/'' else c) filePath"
  by (simp add: normalized_def)

text \<open>
  Claim C10. The configured ignore patterns are matched as unanchored regular expressions
  against the whole path text with every backslash turned into a slash. For every pattern,
  the source text of its expression is the pattern with \<^verbatim>\<open>.\<close> escaped, \<^verbatim>\<open>*\<close> turned into
  \<^verbatim>\<open>.*\<close> and \<^verbatim>\<open>?\<close> into \<^verbatim>\<open>.\<close>, and nothing added at either end; the constructor of the
  model is defined on it. For every path and pattern
  list, the check answers \<^verbatim>\<open>true\<close> exactly when some pattern's expression matches from some
  index of the path text and every pattern before it compiles, and \<^verbatim>\<open>false\<close> exactly when
  every pattern compiles and none matches at any index (what is left is the
  \<^verbatim>\<open>SyntaxError\<close> of the constructor). The pattern \<^verbatim>\<open>*.log\<close> ignores exactly the paths whose
  text holds \<^verbatim>\<open>.log\<close> anywhere; and a scan that has \<^verbatim>\<open>*.log\<close> among its patterns returns no
  file or directory whose path holds \<^verbatim>\<open>.log\<close>.
\<close>

theorem ignore_pattern_matches_anywhere:
  "glob_source pat
     = concat (map (\<lambda>c. if c = CHR ''.'' then [CHR 0x5C, CHR ''.'']
                        else if c = CHR ''*'' then ''.*''
                        else if c = CHR ''?'' then ''.''
                        else [c]) pat)
   \<and> RegExp (glob_source pat) \<noteq> Unmodelled
   \<and> (shouldIgnoreFile filePath pats = Inr True \<longleftrightarrow>
        (\<exists>earlier p later. pats = earlier @ p # later
           \<and> (\<forall>q \<in> set earlier. \<exists>r. RegExp (glob_source q) = Compiled r)
           \<and> (\<exists>r u v. RegExp (glob_source p) = Compiled r
                 \<and> map (\<lambda>c. if c = CHR 0x5C then CHR ''/'' else c) filePath = u @ v
                 \<and> match_at r u v)))
   \<and> (shouldIgnoreFile filePath pats = Inr False \<longleftrightarrow>
        (\<forall>p \<in> set pats. \<exists>r. RegExp (glob_source p) = Compiled r
           \<and> \<not> (\<exists>u v. map (\<lambda>c. if c = CHR 0x5C then CHR ''/'' else c) filePath = u @ v
                      \<and> match_at r u v)))
   \<and> shouldIgnoreFile filePath [''*.log'']
       = Inr (\<exists>u v. map (\<lambda>c. if c = CHR 0x5C then CHR ''/'' else c) filePath = u @ ''.log'' @ v)
   \<and> (scan digest root opts = Inr res \<longrightarrow> ''*.log'' \<in> set (ignorePatterns opts) \<longrightarrow>
        (\<forall>f \<in> set (files_r res) \<union> set (directories_r res).
           \<not> (\<exists>u v. map (\<lambda>c. if c = CHR 0x5C then CHR ''/'' else c) (render (path f))
                      = u @ ''.log'' @ v)))"
proof (intro conjI impI)
  show "glob_source pat
     = concat (map (\<lambda>c. if c = CHR ''.'' then [CHR 0x5C, CHR ''.'']
                        else if c = CHR ''*'' then ''.*''
                        else if c = CHR ''?'' then ''.''
                        else [c]) pat)"
    by (rule glob_source_chars)
  show "RegExp (glob_source pat) \<noteq> Unmodelled" by (rule glob_source_modelled)
  show "shouldIgnoreFile filePath pats = Inr True \<longleftrightarrow>
        (\<exists>earlier p later. pats = earlier @ p # later
           \<and> (\<forall>q \<in> set earlier. \<exists>r. RegExp (glob_source q) = Compiled r)
           \<and> (\<exists>r u v. RegExp (glob_source p) = Compiled r
                 \<and> map (\<lambda>c. if c = CHR 0x5C then CHR ''/'' else c) filePath = u @ v
                 \<and> match_at r u v))"
    unfolding shouldIgnoreFile_def some_matches_True test_iff normalized_chars by blast
  show "shouldIgnoreFile filePath pats = Inr False \<longleftrightarrow>
        (\<forall>p \<in> set pats. \<exists>r. RegExp (glob_source p) = Compiled r
           \<and> \<not> (\<exists>u v. map (\<lambda>c. if c = CHR 0x5C then CHR ''/'' else c) filePath = u @ v
                      \<and> match_at r u v))"
    unfolding shouldIgnoreFile_def some_matches_False test_iff normalized_chars by blast
  show "shouldIgnoreFile filePath [''*.log'']
       = Inr (\<exists>u v. map (\<lambda>c. if c = CHR 0x5C then CHR ''/'' else c) filePath = u @ ''.log'' @ v)"
    unfolding shouldIgnoreFile_log normalized_chars ..
next
  assume s: "scan digest root opts = Inr res" and p: "''*.log'' \<in> set (ignorePatterns opts)"
  show "\<forall>f \<in> set (files_r res) \<union> set (directories_r res).
           \<not> (\<exists>u v. map (\<lambda>c. if c = CHR 0x5C then CHR ''/'' else c) (render (path f))
                      = u @ ''.log'' @ v)"
  proof
    fix f assume "f \<in> set (files_r res) \<union> set (directories_r res)"
    with scan_kept[OF s]
    have "shouldIgnoreFile (render (path f)) (ignorePatterns opts) = Inr False" by blast
    from shouldIgnoreFile_log_member[OF this p]
    show "\<not> (\<exists>u v. map (\<lambda>c. if c = CHR 0x5C then CHR ''/'' else c) (render (path f))
                      = u @ ''.log'' @ v)"
      unfolding normalized_chars .
  qed
qed

lemma log_walk:
  "getFilePathsNative log_tree log_opts
   = [[''proj'', ''a.login.txt''], [''proj'', ''b.txt''], [''proj'', ''c.log'']]"
  by (simp add: getFilePathsNative_def log_tree_def log_opts_def createCombinedParser_def
      findGitignoreFiles_def startsWith_def join_def shouldIgnore_def depth_reached_def
      normalized_def)

lemma RegExp_lib: "RegExp (glob_source ''lib/a?c.o'')
    = Compiled (sequence (map Chr ''lib/a'' @ [Dot] @ map Chr ''c.o''))"
  by (simp add: glob_source_def replace_chars_def RegExp_def add_term_def close_frame_def
      startsWith_def atom_escape_def class_escape_def digit_value_def
      character_escape_def control_escape_def octal_value_def)

lemma RegExp_txt: "RegExp (glob_source ''x.txt'') = Compiled (sequence (map Chr ''x.txt''))"
  by (simp add: glob_source_def replace_chars_def RegExp_def add_term_def close_frame_def
      startsWith_def atom_escape_def class_escape_def digit_value_def
      character_escape_def control_escape_def octal_value_def)

theorem ignore_pattern_matches_anywhere_witness:
  "shouldIgnoreFile ''/proj/a.login.txt'' [''*.log''] = Inr True
   \<and> shouldIgnoreFile ''/proj/b.txt'' [''*.log''] = Inr False
   \<and> glob_source ''lib/a?c.o'' = ''lib/a.c'' @ [CHR 0x5C] @ ''.o''
   \<and> shouldIgnoreFile (''C:'' @ [CHR 0x5C] @ ''lib'' @ [CHR 0x5C] @ ''abc.old'') [''x.txt'', ''lib/a?c.o'']
       = Inr True
   \<and> shouldIgnoreFile ''/lib/abcxo'' [''x.txt'', ''lib/a?c.o''] = Inr False
   \<and> ''*.log'' \<in> set (ignorePatterns log_opts)
   \<and> getFilePathsNative log_tree log_opts
       = [[''proj'', ''a.login.txt''], [''proj'', ''b.txt''], [''proj'', ''c.log'']]
   \<and> map_sum id (\<lambda>res. map path (files_r res)) (scan (\<lambda>s. s) log_tree log_opts)
       = Inr [[''proj'', ''b.txt'']]"
proof -
  note main = ignore_pattern_matches_anywhere
  have i1: "shouldIgnoreFile ''/proj/a.login.txt'' [''*.log''] = Inr True"
  proof -
    have "map (\<lambda>c. if c = CHR 0x5C then CHR ''/'' else c) ''/proj/a.login.txt''
        = ''/proj/a'' @ ''.log'' @ ''in.txt''" by simp
    then have "\<exists>u v. map (\<lambda>c. if c = CHR 0x5C then CHR ''/'' else c) ''/proj/a.login.txt''
        = u @ ''.log'' @ v" by blast
    with main [of _ "''/proj/a.login.txt''"] show ?thesis by simp
  qed
  have i2: "shouldIgnoreFile ''/proj/c.log'' [''*.log''] = Inr True"
  proof -
    have "map (\<lambda>c. if c = CHR 0x5C then CHR ''/'' else c) ''/proj/c.log''
        = ''/proj/c'' @ ''.log'' @ []" by simp
    then have "\<exists>u v. map (\<lambda>c. if c = CHR 0x5C then CHR ''/'' else c) ''/proj/c.log''
        = u @ ''.log'' @ v" by blast
    with main [of _ "''/proj/c.log''"] show ?thesis by simp
  qed
  have i3: "shouldIgnoreFile ''/proj/b.txt'' [''*.log''] = Inr False"
    by (simp add: shouldIgnoreFile_def RegExp_log log_rx_def test_def match_at_def rep_state
        line_terminator_def normalized_def)
  have g: "glob_source ''lib/a?c.o'' = ''lib/a.c'' @ [CHR 0x5C] @ ''.o''"
    using main [of "''lib/a?c.o''"] by simp
  have i4: "shouldIgnoreFile (''C:'' @ [CHR 0x5C] @ ''lib'' @ [CHR 0x5C] @ ''abc.old'')
      [''x.txt'', ''lib/a?c.o''] = Inr True"
  proof -
    have "[''x.txt'', ''lib/a?c.o''] = [''x.txt''] @ ''lib/a?c.o'' # []
        \<and> (\<forall>q \<in> set [''x.txt'']. \<exists>r. RegExp (glob_source q) = Compiled r)
        \<and> RegExp (glob_source ''lib/a?c.o'')
            = Compiled (sequence (map Chr ''lib/a'' @ [Dot] @ map Chr ''c.o''))
        \<and> map (\<lambda>c. if c = CHR 0x5C then CHR ''/'' else c)
             (''C:'' @ [CHR 0x5C] @ ''lib'' @ [CHR 0x5C] @ ''abc.old'') = ''C:/'' @ ''lib/abc.old''
        \<and> match_at (sequence (map Chr ''lib/a'' @ [Dot] @ map Chr ''c.o'')) ''C:/'' ''lib/abc.old''"
      by (simp add: RegExp_txt RegExp_lib match_at_def line_terminator_def)
    then show ?thesis
      unfolding main [of _ "''C:'' @ [CHR 0x5C] @ ''lib'' @ [CHR 0x5C] @ ''abc.old''"
          "[''x.txt'', ''lib/a?c.o'']", THEN conjunct2, THEN conjunct2, THEN conjunct1]
      by blast
  qed
  have i5: "shouldIgnoreFile ''/lib/abcxo'' [''x.txt'', ''lib/a?c.o''] = Inr False"
    by (simp add: shouldIgnoreFile_def RegExp_txt RegExp_lib test_def match_at_def
        line_terminator_def normalized_def)
  have ip: "ignorePatterns log_opts = [''*.log'']" by (simp add: log_opts_def)
  have r: "render [''proj'', ''a.login.txt''] = ''/proj/a.login.txt''"
    "render [''proj'', ''b.txt''] = ''/proj/b.txt''"
    "render [''proj'', ''c.log''] = ''/proj/c.log''"
    by (simp_all add: render_def)
  have m: "getFileMetadata log_tree [''proj'', ''b.txt'']
      = Inr \<lparr>path = [''proj'', ''b.txt''], name = ''b.txt'', size_f = 5,
             isDirectory = False, hash = None\<rparr>"
    by (simp add: getFileMetadata_def stat_def log_tree_def basename_def)
  have h: "calculateFileHash (\<lambda>s. s) log_tree [''proj'', ''b.txt''] = Inr ''plain''"
    by (simp add: calculateFileHash_def readFile_def log_tree_def)
  have "map_sum id (\<lambda>res. map path (files_r res)) (scan (\<lambda>s. s) log_tree log_opts)
       = Inr [[''proj'', ''b.txt'']]"
    by (simp add: scan_def log_walk ip r i1 i2 i3 m h)
  with i1 i3 g i4 i5 log_walk ip show ?thesis by simp
qed

section \<open>Ignore rules and the walker\<close>


















lemma below_join: "below (join dir nm) \<subseteq> below dir"
  by (auto simp: below_def join_def)

lemma join_below: "join dir nm \<in> below dir"
  by (auto simp: below_def join_def)

















lemma lock_walk:
  "getFilePathsNative lock_tree keep_opts
   = [[''proj'', ''a''], [''proj'', ''a'', ''data.bin''],
      [''proj'', ''b''], [''proj'', ''b'', ''data.bin'']]"
  by (simp add: getFilePathsNative_def lock_tree_def keep_opts_def createCombinedParser_def
      findGitignoreFiles_def startsWith_def join_def shouldIgnore_def depth_reached_def
      normalized_def)

text \<open>
  Claim C7 at a concrete run. Two files are named \<^verbatim>\<open>data.bin\<close>; the one under \<^verbatim>\<open>a\<close> has
  three bytes and cannot be read, so its fingerprint fails. The walker lists both, but the
  scan's file list holds only the readable one: the failure of \<^verbatim>\<open>calculateFileHash\<close> is
  caught by the \<^verbatim>\<open>catch\<close> that was written for \<^verbatim>\<open>getFileMetadata\<close>, which skips the
  \<^verbatim>\<open>push\<close>. So the unreadable file takes no part in name-based grouping either, and the
  two files of one name give no group.
\<close>

theorem scan_drops_unhashable_file:
  "getFilePathsNative lock_tree keep_opts
     = [[''proj'', ''a''], [''proj'', ''a'', ''data.bin''],
        [''proj'', ''b''], [''proj'', ''b'', ''data.bin'']]
   \<and> stat lock_tree [''proj'', ''a'', ''data.bin''] = Inr (3, False)
   \<and> calculateFileHash (\<lambda>s. s) lock_tree [''proj'', ''a'', ''data.bin''] = Inl EACCES
   \<and> map_sum id (\<lambda>res. map path (files_r res)) (scan (\<lambda>s. s) lock_tree keep_opts)
       = Inr [[''proj'', ''b'', ''data.bin'']]
   \<and> map_sum id (\<lambda>res. fst (findNameBasedDuplicates (\<lambda>n. ''id'') 0 (files_r res)))
         (scan (\<lambda>s. s) lock_tree keep_opts)
       = Inr []"
proof -
  have ip: "ignorePatterns keep_opts = []" by (simp add: keep_opts_def)
  have st: "stat lock_tree [''proj'', ''a'', ''data.bin''] = Inr (3, False)"
    "stat lock_tree [''proj'', ''b'', ''data.bin''] = Inr (3, False)"
    "stat lock_tree [''proj'', ''a''] = Inr (0, True)"
    "stat lock_tree [''proj'', ''b''] = Inr (0, True)"
    by (simp_all add: stat_def lock_tree_def)
  have h: "calculateFileHash (\<lambda>s. s) lock_tree [''proj'', ''a'', ''data.bin''] = Inl EACCES"
    "calculateFileHash (\<lambda>s. s) lock_tree [''proj'', ''b'', ''data.bin''] = Inr ''xyz''"
    by (simp_all add: calculateFileHash_def readFile_def lock_tree_def)
  have sc: "scan (\<lambda>s. s) lock_tree keep_opts
      = Inr \<lparr>files_r = [\<lparr>path = [''proj'', ''b'', ''data.bin''], name = ''data.bin'', size_f = 3,
                           isDirectory = False, hash = Some ''xyz''\<rparr>],
             directories_r = [\<lparr>path = [''proj'', ''a''], name = ''a'', size_f = 0,
                                 isDirectory = True, hash = None\<rparr>,
                              \<lparr>path = [''proj'', ''b''], name = ''b'', size_f = 0,
                                 isDirectory = True, hash = None\<rparr>],
             totalFiles = 1, totalSize_r = 3\<rparr>"
    by (simp add: scan_def lock_walk ip shouldIgnoreFile_def getFileMetadata_def st h basename_def)
  show ?thesis
    by (simp add: lock_walk st h sc findNameBasedDuplicates_def nameGroups_def map_push_def
        map_has_def)
qed

end
